theory Spec2Isabelle
  imports Complex_Main "HOL-Library.Multiset"
begin

section \<open>Outcomes of a run\<close>

text \<open>
  A Go function of \<^verbatim>\<open>sudokuAnnealing.go\<close> either returns, or panics (an index out of
  range, \<^verbatim>\<open>rand.Intn\<close> on a non-positive bound, \<^verbatim>\<open>make\<close> with a negative length), or
  keeps running. The random source is modelled by the finite list of the values it
  delivers next; a run that asks for more values than the list holds is \<open>Starved\<close>: it has
  not returned on any random source that starts with these values. The outer loop of
  \<^verbatim>\<open>anneal\<close> is run for a bounded number of rounds; \<open>Timeout\<close> says that the loop body would
  be entered once more than the bound allows.
\<close>

datatype panic = IndexOutOfRange | IntnNonPositive | MakesliceLenOutOfRange

datatype 'a res = Done 'a | Panic panic | Starved | Timeout

fun bind_res :: "'a res \<Rightarrow> ('a \<Rightarrow> 'b res) \<Rightarrow> 'b res" where
  "bind_res (Done x) f = f x"
| "bind_res (Panic e) f = Panic e"
| "bind_res Starved f = Starved"
| "bind_res Timeout f = Timeout"

lemma bind_res_cong [fundef_cong]:
  "m = m' \<Longrightarrow> (\<And>x. m' = Done x \<Longrightarrow> f x = f' x) \<Longrightarrow> bind_res m f = bind_res m' f'"
  by (cases m') auto

text \<open>A counted loop \<^verbatim>\<open>for _, x := range xs { s = body(x, s) }\<close> that stops at the first
  panic.\<close>

fun for_each :: "'a list \<Rightarrow> ('a \<Rightarrow> 's \<Rightarrow> 's res) \<Rightarrow> 's \<Rightarrow> 's res" where
  "for_each [] body s = Done s"
| "for_each (x # xs) body s = bind_res (body x s) (for_each xs body)"

section \<open>Machine integers\<close>

text \<open>
  A Go \<^verbatim>\<open>int\<close> has 64 bits on the platforms the program is built for, and its arithmetic
  wraps around. \<open>int64\<close> takes the exact result of an operation back into the range from
  \<open>- 2 ^ 63\<close> to \<open>2 ^ 63 - 1\<close>. It is applied wherever the operands are not bounded by
  the length of a slice that exists.
\<close>

definition int64 :: "int \<Rightarrow> int" where
  "int64 k = (k + 2 ^ 63) mod 2 ^ 64 - 2 ^ 63"

section \<open>Slices and grids\<close>

type_synonym puzzle = "int list list"

text \<open>\<^verbatim>\<open>xs[i]\<close> and \<^verbatim>\<open>xs[i] = v\<close>: Go panics when the index is not below \<^verbatim>\<open>len(xs)\<close>.\<close>

definition load :: "'a list \<Rightarrow> nat \<Rightarrow> 'a res" where
  "load xs i = (if i < length xs then Done (xs ! i) else Panic IndexOutOfRange)"

definition store :: "'a list \<Rightarrow> nat \<Rightarrow> 'a \<Rightarrow> 'a list res" where
  "store xs i v = (if i < length xs then Done (xs[i := v]) else Panic IndexOutOfRange)"

text \<open>The same read with an index that is a machine integer and may be negative.\<close>

definition loadAt :: "'a list \<Rightarrow> int \<Rightarrow> 'a res" where
  "loadAt xs i =
     (if 0 \<le> i \<and> i < int (length xs) then Done (xs ! nat i) else Panic IndexOutOfRange)"

definition load2 :: "puzzle \<Rightarrow> nat \<Rightarrow> nat \<Rightarrow> int res" where
  "load2 p i j = bind_res (load p i) (\<lambda>row. load row j)"

definition store2 :: "puzzle \<Rightarrow> nat \<Rightarrow> nat \<Rightarrow> int \<Rightarrow> puzzle res" where
  "store2 p i j v =
     bind_res (load p i) (\<lambda>row. bind_res (store row j v) (\<lambda>row'. Done (p[i := row'])))"

section \<open>The store\<close>

text \<open>
  A \<^verbatim>\<open>[][]int\<close> is a slice of rows, and a row is a slice on an array of integers that
  other slices may share: writing a cell through one grid is seen through every grid that
  holds that row. The store is the list of all row arrays made so far, an address is a
  position in it, and a grid is the list of the addresses of its rows. \<^verbatim>\<open>make\<close> puts a new
  array at the end of the store. \<open>rows\<close> reads the rows of a grid out of the store; every
  grid of the program holds addresses of the store only (\<open>alive\<close>).
\<close>

type_synonym addr = nat

type_synonym heap = "int list list"

type_synonym grid = "addr list"

definition rows :: "heap \<Rightarrow> grid \<Rightarrow> puzzle" where
  "rows h g = map (\<lambda>a. h ! a) g"

definition alive :: "heap \<Rightarrow> grid \<Rightarrow> bool" where
  "alive h g = (\<forall>a \<in> set g. a < length h)"

text \<open>\<^verbatim>\<open>g[i][j]\<close> and \<^verbatim>\<open>g[i][j] = v\<close> on a grid in the store.\<close>

definition peek :: "heap \<Rightarrow> grid \<Rightarrow> nat \<Rightarrow> nat \<Rightarrow> int res" where
  "peek h g i j = bind_res (load g i) (\<lambda>a. load (h ! a) j)"

definition poke :: "heap \<Rightarrow> grid \<Rightarrow> nat \<Rightarrow> nat \<Rightarrow> int \<Rightarrow> heap res" where
  "poke h g i j v =
     bind_res (load g i) (\<lambda>a. bind_res (store (h ! a) j v) (\<lambda>row. Done (h[a := row])))"

text \<open>
  \<^verbatim>\<open>copyPuzzle\<close> (lines 368-380) makes \<^verbatim>\<open>len(originalPuzzle)\<close> new rows of that length, one
  after the other, and returns the grid of their addresses; the built-in \<^verbatim>\<open>copy\<close> moves as
  many elements as both rows have, the rest stay 0.
\<close>

definition copyPuzzle :: "grid \<Rightarrow> heap \<Rightarrow> grid \<times> heap" where
  "copyPuzzle originalPuzzle h =
     (let puzzleDim = length originalPuzzle
      in ([length h ..< length h + puzzleDim],
          h @ map (\<lambda>a. take puzzleDim (h ! a) @ replicate (puzzleDim - length (h ! a)) 0)
                originalPuzzle))"

section \<open>The random source\<close>

text \<open>
  The state of \<^verbatim>\<open>math/rand\<close> is the list of raw values still to come. \<^verbatim>\<open>rand.Intn(n)\<close>
  panics for \<open>n \<le> 0\<close> and otherwise uses one value, reduced into \<open>[0, n)\<close>;
  \<^verbatim>\<open>rand.Float64()\<close> uses one value and yields a number of \<open>[0, 1)\<close> with 53 bits.
\<close>

type_synonym rng = "nat list"

definition Intn :: "nat \<Rightarrow> rng \<Rightarrow> (nat \<times> rng) res" where
  "Intn n rs =
     (if n = 0 then Panic IntnNonPositive
      else case rs of [] \<Rightarrow> Starved | r # rs' \<Rightarrow> Done (r mod n, rs'))"

definition Float64 :: "rng \<Rightarrow> (real \<times> rng) res" where
  "Float64 rs =
     (case rs of [] \<Rightarrow> Starved
      | r # rs' \<Rightarrow> Done (real (r mod 2 ^ 53) / 2 ^ 53, rs'))"

section \<open>The cost function (lines 234-310)\<close>

text \<open>\<^verbatim>\<open>if number > 0 { counts[number-1]++ }\<close>\<close>

definition tally :: "int list \<Rightarrow> int \<Rightarrow> int list res" where
  "tally counts number =
     (if number > 0
      then bind_res (load counts (nat (number - 1)))
             (\<lambda>c. store counts (nat (number - 1)) (c + 1))
      else Done counts)"

text \<open>\<^verbatim>\<open>for _, count := range counts { cost += math.Abs(float64(count - 1)) }\<close>. The cost
  is a \<^verbatim>\<open>float64\<close> that only ever holds sums of such integers; it is kept as an integer.\<close>

definition addDeviations :: "int \<Rightarrow> int list \<Rightarrow> int" where
  "addDeviations cost counts = foldl (\<lambda>cost count. cost + \<bar>count - 1\<bar>) cost counts"

text \<open>The body of the loop over \<^verbatim>\<open>dim2\<close> (lines 252-265), on the pair of count slices.\<close>

definition countLine :: "puzzle \<Rightarrow> nat \<Rightarrow> nat \<Rightarrow> int list \<times> int list \<Rightarrow> (int list \<times> int list) res" where
  "countLine puzzle dim1 dim2 = (\<lambda>(rowCounts, columnCounts).
     bind_res (load2 puzzle dim1 dim2) (\<lambda>number.
     bind_res (tally rowCounts number) (\<lambda>rowCounts.
     bind_res (load2 puzzle dim2 dim1) (\<lambda>number.
     bind_res (tally columnCounts number) (\<lambda>columnCounts.
     Done (rowCounts, columnCounts))))))"

text \<open>The body of the loop over \<^verbatim>\<open>dim1\<close> (lines 244-276).\<close>

definition lineCost :: "puzzle \<Rightarrow> nat \<Rightarrow> nat \<Rightarrow> int \<Rightarrow> int res" where
  "lineCost puzzle puzzleDim dim1 cost =
     bind_res (for_each [0..<puzzleDim] (countLine puzzle dim1)
                 (replicate puzzleDim 0, replicate puzzleDim 0))
       (\<lambda>(rowCounts, columnCounts).
          Done (addDeviations (addDeviations cost rowCounts) columnCounts))"

text \<open>
  The body of the loop over \<^verbatim>\<open>k\<close> (lines 291-300). It runs only inside the loops over
  \<^verbatim>\<open>i\<close> and \<^verbatim>\<open>j\<close>, so with \<open>0 \<le> k\<close> and \<open>0 < blockXDim\<close>, where the truncating
  \<^verbatim>\<open>%\<close> and \<^verbatim>\<open>/\<close> of Go are \<open>mod\<close> and \<open>div\<close>. The two products and the two sums wrap
  around, and a negative index panics.
\<close>

definition countBlock :: "puzzle \<Rightarrow> int \<Rightarrow> int \<Rightarrow> nat \<Rightarrow> nat \<Rightarrow> nat \<Rightarrow> int list \<Rightarrow> int list res" where
  "countBlock puzzle blockXDim blockYDim i j k blockCounts =
     (let horizontalIndex = int64 (int64 (int i * blockXDim) + int k mod blockXDim);
          verticalIndex = int64 (int64 (int j * blockYDim) + int k div blockXDim)
      in bind_res (loadAt puzzle horizontalIndex) (\<lambda>row.
         bind_res (loadAt row verticalIndex) (tally blockCounts)))"

text \<open>The body of the loop over \<^verbatim>\<open>j\<close> (lines 286-306): \<^verbatim>\<open>make\<close> panics when
  \<^verbatim>\<open>puzzleDim\<close> is negative.\<close>

definition blockCost :: "puzzle \<Rightarrow> int \<Rightarrow> int \<Rightarrow> int \<Rightarrow> nat \<Rightarrow> nat \<Rightarrow> int \<Rightarrow> int res" where
  "blockCost puzzle puzzleDim blockXDim blockYDim i j cost =
     (if puzzleDim < 0 then Panic MakesliceLenOutOfRange
      else bind_res (for_each [0..<nat puzzleDim] (countBlock puzzle blockXDim blockYDim i j)
                      (replicate (nat puzzleDim) 0))
             (\<lambda>blockCounts. Done (addDeviations cost blockCounts)))"

text \<open>
  Line 237 multiplies two machine integers: \<^verbatim>\<open>puzzleDim\<close> is the product wrapped around.
  The loops over \<^verbatim>\<open>dim1\<close> and \<^verbatim>\<open>dim2\<close> run only for a positive \<^verbatim>\<open>puzzleDim\<close>, the loops
  over \<^verbatim>\<open>i\<close> and \<^verbatim>\<open>j\<close> only for positive block dimensions.
\<close>

definition costFunction :: "puzzle \<Rightarrow> int \<Rightarrow> int \<Rightarrow> int res" where
  "costFunction puzzle blockXDim blockYDim =
     (let puzzleDim = int64 (blockXDim * blockYDim);
          horizontalBlockCount = blockYDim;
          verticalBlockCount = blockXDim
      in bind_res (for_each [0..<nat puzzleDim] (lineCost puzzle (nat puzzleDim)) 0)
           (for_each [0..<nat horizontalBlockCount] (\<lambda>i.
              for_each [0..<nat verticalBlockCount]
                (blockCost puzzle puzzleDim blockXDim blockYDim i))))"

section \<open>Floating-point numbers\<close>

text \<open>
  A \<^verbatim>\<open>float64\<close> is the real number it stands for. A cost is a sum of small integers and is
  kept as an integer; a difference of two costs is exact. The rounding of a product, of a
  quotient and of \<^verbatim>\<open>math.Exp\<close> is not fixed: these three operations are parameters of
  the model. \<^verbatim>\<open>math.Pow(2, float64(i))\<close> is the power of two, and the constant
  \<^verbatim>\<open>0.00001\<close> is the \<^verbatim>\<open>float64\<close> next to it.
\<close>

record fpu =
  fmul :: "real \<Rightarrow> real \<Rightarrow> real"
  fdiv :: "real \<Rightarrow> real \<Rightarrow> real"
  fexp :: "real \<Rightarrow> real"

definition acceptanceProbability :: "fpu \<Rightarrow> int \<Rightarrow> int \<Rightarrow> real \<Rightarrow> real" where
  "acceptanceProbability fp oldCost newCost temperature =
     fexp fp (fdiv fp (real_of_int (oldCost - newCost)) temperature)"

definition finalTemperature :: real where
  "finalTemperature = 5902958103587057 / 2 ^ 69"

section \<open>The neighbour generator (lines 198-229)\<close>

text \<open>The two loops of lines 214-222: draw again while the cell is a clue.\<close>

function reassign :: "heap \<Rightarrow> grid \<Rightarrow> nat \<Rightarrow> nat \<Rightarrow> nat \<Rightarrow> rng \<Rightarrow> (nat \<times> nat \<times> rng) res" where
  "reassign h originalPuzzle puzzleDim randomXIndex randomYIndex rs =
     bind_res (peek h originalPuzzle randomXIndex randomYIndex) (\<lambda>clue.
       if clue > 0
       then bind_res (Intn puzzleDim rs) (\<lambda>(randomXIndex, rs1).
            bind_res (Intn puzzleDim rs1) (\<lambda>(randomYIndex, rs2).
              reassign h originalPuzzle puzzleDim randomXIndex randomYIndex rs2))
       else Done (randomXIndex, randomYIndex, rs))"
  by pat_completeness auto
termination
  by (relation "measure (\<lambda>(h, originalPuzzle, puzzleDim, x, y, rs). length rs)")
     (auto simp: Intn_def split: if_splits list.splits)

text \<open>Line 225: both cells are read, then the first and then the second is written, each
  into the row array as it is in the store at that moment.\<close>

definition swapCells :: "heap \<Rightarrow> grid \<Rightarrow> nat \<Rightarrow> nat \<Rightarrow> nat \<Rightarrow> nat \<Rightarrow> heap res" where
  "swapCells h p x1 y1 x2 y2 =
     bind_res (peek h p x2 y2) (\<lambda>v2.
     bind_res (peek h p x1 y1) (\<lambda>v1.
     bind_res (poke h p x1 y1 v2) (\<lambda>h. poke h p x2 y2 v1)))"

text \<open>The body of the loop of lines 205-226, on the store and the random source.\<close>

definition swapOnce :: "grid \<Rightarrow> nat \<Rightarrow> grid \<Rightarrow> heap \<times> rng \<Rightarrow> (heap \<times> rng) res" where
  "swapOnce originalPuzzle puzzleDim neighbourPuzzle = (\<lambda>(h, rs).
     bind_res (Intn puzzleDim rs) (\<lambda>(randomXIndex1, rs).
     bind_res (Intn puzzleDim rs) (\<lambda>(randomYIndex1, rs).
     bind_res (Intn puzzleDim rs) (\<lambda>(randomXIndex2, rs).
     bind_res (Intn puzzleDim rs) (\<lambda>(randomYIndex2, rs).
     bind_res (reassign h originalPuzzle puzzleDim randomXIndex1 randomYIndex1 rs)
       (\<lambda>(randomXIndex1, randomYIndex1, rs).
     bind_res (reassign h originalPuzzle puzzleDim randomXIndex2 randomYIndex2 rs)
       (\<lambda>(randomXIndex2, randomYIndex2, rs).
     bind_res (swapCells h neighbourPuzzle randomXIndex1 randomYIndex1 randomXIndex2 randomYIndex2)
       (\<lambda>h. Done (h, rs)))))))))"

text \<open>\<^verbatim>\<open>getNeighbour\<close> returns the grid it has made, in the store as the swaps leave it.\<close>

definition getNeighbour :: "grid \<Rightarrow> int \<Rightarrow> grid \<Rightarrow> heap \<times> rng \<Rightarrow> (grid \<times> heap \<times> rng) res" where
  "getNeighbour currentPuzzle swapCount originalPuzzle = (\<lambda>(h, rs).
     let puzzleDim = length originalPuzzle;
         (neighbourPuzzle, h) = copyPuzzle currentPuzzle h
     in bind_res (for_each [0..<nat swapCount]
                    (\<lambda>i. swapOnce originalPuzzle puzzleDim neighbourPuzzle) (h, rs))
          (\<lambda>(h, rs). Done (neighbourPuzzle, h, rs)))"

section \<open>The exchange pass of the coordinator (lines 136-141)\<close>

text \<open>The pass moves the elements of \<^verbatim>\<open>annealerSolutions\<close>, whatever they are, and the costs.\<close>

definition exchangeStep :: "nat \<Rightarrow> 'a list \<times> int list \<Rightarrow> ('a list \<times> int list) res" where
  "exchangeStep i = (\<lambda>(annealerSolutions, annealerCosts).
     bind_res (load annealerCosts i) (\<lambda>hot.
     bind_res (load annealerCosts (i - 1)) (\<lambda>cold.
       if hot < cold
       then bind_res (load annealerSolutions (i - 1)) (\<lambda>s1.
            bind_res (load annealerSolutions i) (\<lambda>s0.
            bind_res (store annealerSolutions i s1) (\<lambda>sols.
            bind_res (store sols (i - 1) s0) (\<lambda>sols.
            bind_res (store annealerCosts i cold) (\<lambda>costs.
            bind_res (store costs (i - 1) hot) (\<lambda>costs.
            Done (sols, costs)))))))
       else Done (annealerSolutions, annealerCosts))))"

text \<open>\<^verbatim>\<open>for i := concurrentAnnealerCount - 1; i > 0; i--\<close>\<close>

definition exchangePass :: "int \<Rightarrow> 'a list \<times> int list \<Rightarrow> ('a list \<times> int list) res" where
  "exchangePass concurrentAnnealerCount = for_each (rev [1..<nat concurrentAnnealerCount]) exchangeStep"

section \<open>The random feasible initializer (lines 321-365)\<close>

text \<open>\<^verbatim>\<open>remainingNumbers\<close> is a \<^verbatim>\<open>map[int]int\<close>: reading a missing key yields 0.\<close>

type_synonym counts = "int \<rightharpoonup> int"

definition lookup :: "counts \<Rightarrow> int \<Rightarrow> int" where
  "lookup m k = (case m k of None \<Rightarrow> 0 | Some c \<Rightarrow> c)"

text \<open>Lines 333-335: \<^verbatim>\<open>for i := 1; i <= puzzleDim; i++ { remainingNumbers[i] = puzzleDim }\<close>\<close>

definition fullCounts :: "nat \<Rightarrow> counts" where
  "fullCounts puzzleDim = fold (\<lambda>i m. m(int i \<mapsto> int puzzleDim)) [1..<Suc puzzleDim] Map.empty"

text \<open>The body of the loop over \<^verbatim>\<open>j\<close> (lines 341-349) and the two loops of lines
  339-350; the state is \<^verbatim>\<open>remainingNumbers\<close>, \<^verbatim>\<open>emptySpots\<close> and \<^verbatim>\<open>initializedPuzzle\<close>.\<close>

definition scanCell :: "puzzle \<Rightarrow> nat \<Rightarrow> nat \<Rightarrow> counts \<times> (nat \<times> nat) list \<times> puzzle
    \<Rightarrow> (counts \<times> (nat \<times> nat) list \<times> puzzle) res" where
  "scanCell originalPuzzle i j = (\<lambda>(remainingNumbers, emptySpots, initializedPuzzle).
     bind_res (load2 originalPuzzle i j) (\<lambda>clue.
       if clue > 0
       then bind_res (store2 initializedPuzzle i j clue) (\<lambda>initializedPuzzle.
              Done (remainingNumbers(clue \<mapsto> lookup remainingNumbers clue - 1),
                    emptySpots, initializedPuzzle))
       else Done (remainingNumbers, emptySpots @ [(i, j)], initializedPuzzle)))"

definition scanClues :: "puzzle \<Rightarrow> (counts \<times> (nat \<times> nat) list \<times> puzzle) res" where
  "scanClues originalPuzzle =
     (let puzzleDim = length originalPuzzle
      in for_each [0..<puzzleDim]
           (\<lambda>i (remainingNumbers, emptySpots, initializedPuzzle).
              for_each [0..<puzzleDim] (scanCell originalPuzzle i)
                (remainingNumbers, emptySpots, initializedPuzzle[i := replicate puzzleDim 0]))
           (fullCounts puzzleDim, [], replicate puzzleDim []))"

text \<open>The body of the loop over \<^verbatim>\<open>i\<close> (lines 356-360): a random spot gets the number and
  the last spot takes its place in the slice, which loses its last element.\<close>

definition placeNumber :: "int \<Rightarrow> (nat \<times> nat) list \<times> puzzle \<times> rng
    \<Rightarrow> ((nat \<times> nat) list \<times> puzzle \<times> rng) res" where
  "placeNumber remainingNumber = (\<lambda>(emptySpots, initializedPuzzle, rs).
     bind_res (Intn (length emptySpots) rs) (\<lambda>(spotIndex, rs).
     bind_res (load emptySpots spotIndex) (\<lambda>spot.
     bind_res (store2 initializedPuzzle (fst spot) (snd spot) remainingNumber)
       (\<lambda>initializedPuzzle.
     bind_res (load emptySpots (length emptySpots - 1)) (\<lambda>lastSpot.
     bind_res (store emptySpots spotIndex lastSpot) (\<lambda>emptySpots.
       Done (take (length emptySpots - 1) emptySpots, initializedPuzzle, rs)))))))"

text \<open>
  Lines 354-362. Go visits the keys of a map in an order it does not specify; the order is
  the parameter \<open>keyOrder\<close>, and \<open>rangeOrder\<close> says that it lists every key once.
\<close>

definition placeAll :: "counts \<Rightarrow> int list \<Rightarrow> (nat \<times> nat) list \<times> puzzle \<times> rng
    \<Rightarrow> ((nat \<times> nat) list \<times> puzzle \<times> rng) res" where
  "placeAll remainingNumbers keyOrder =
     for_each keyOrder (\<lambda>remainingNumber.
       for_each [0..<nat (lookup remainingNumbers remainingNumber)]
         (\<lambda>i. placeNumber remainingNumber))"

definition rangeOrder :: "counts \<Rightarrow> int list \<Rightarrow> bool" where
  "rangeOrder m keyOrder = (distinct keyOrder \<and> set keyOrder = dom m)"

definition randomInitialization :: "puzzle \<Rightarrow> int list \<Rightarrow> rng \<Rightarrow> (puzzle \<times> rng) res" where
  "randomInitialization originalPuzzle keyOrder rs =
     bind_res (scanClues originalPuzzle) (\<lambda>(remainingNumbers, emptySpots, initializedPuzzle).
     bind_res (placeAll remainingNumbers keyOrder (emptySpots, initializedPuzzle, rs))
       (\<lambda>(emptySpots, initializedPuzzle, rs). Done (initializedPuzzle, rs)))"

section \<open>The replica local search (lines 157-193)\<close>

text \<open>
  The loop of lines 163-188 with \<open>k\<close> iterations left. The two channel sends of a return are
  the returned pair. The grids are grids of the store.
\<close>

fun searchLoop :: "fpu \<Rightarrow> grid \<Rightarrow> int \<Rightarrow> int \<Rightarrow> real \<Rightarrow> int \<Rightarrow> nat \<Rightarrow> grid \<Rightarrow> int \<Rightarrow> heap \<times> rng
    \<Rightarrow> (grid \<times> int \<times> heap \<times> rng) res" where
  "searchLoop fp originalPuzzle blockXDim blockYDim temperature swapCount 0
     updatedSolution updatedCost (h, rs) = Done (updatedSolution, updatedCost, h, rs)"
| "searchLoop fp originalPuzzle blockXDim blockYDim temperature swapCount (Suc k)
     updatedSolution updatedCost (h, rs) =
     bind_res (getNeighbour updatedSolution swapCount originalPuzzle (h, rs))
       (\<lambda>(newCandidateSolution, h, rs).
     bind_res (costFunction (rows h newCandidateSolution) blockXDim blockYDim)
       (\<lambda>newCandidateCost.
       if newCandidateCost = 0 then Done (newCandidateSolution, 0, h, rs)
       else if newCandidateCost < updatedCost
       then searchLoop fp originalPuzzle blockXDim blockYDim temperature swapCount k
              newCandidateSolution newCandidateCost (h, rs)
       else let ap = acceptanceProbability fp updatedCost newCandidateCost temperature
            in bind_res (Float64 rs) (\<lambda>(u, rs).
                 if ap > u
                 then searchLoop fp originalPuzzle blockXDim blockYDim temperature swapCount k
                        newCandidateSolution newCandidateCost (h, rs)
                 else searchLoop fp originalPuzzle blockXDim blockYDim temperature swapCount k
                        updatedSolution updatedCost (h, rs))))"

definition annealerInternalIterator :: "fpu \<Rightarrow> grid \<Rightarrow> grid \<Rightarrow> int \<Rightarrow> int \<Rightarrow> real \<Rightarrow> int \<Rightarrow> int
    \<Rightarrow> heap \<times> rng \<Rightarrow> (grid \<times> int \<times> heap \<times> rng) res" where
  "annealerInternalIterator fp originalPuzzle candidateSolution blockXDim blockYDim temperature
     internalIterations swapCount = (\<lambda>(h, rs).
     let (updatedSolution, h) = copyPuzzle candidateSolution h
     in bind_res (costFunction (rows h updatedSolution) blockXDim blockYDim) (\<lambda>updatedCost.
          searchLoop fp originalPuzzle blockXDim blockYDim temperature swapCount
            (nat internalIterations) updatedSolution updatedCost (h, rs)))"

section \<open>The coordinator (lines 106-153)\<close>

text \<open>
  The body of the loop of lines 129-133. The goroutine started for replica \<open>i\<close> is the only
  one running while the coordinator waits for its two sends, so the replicas run one after
  the other.
\<close>

definition runReplica :: "fpu \<Rightarrow> grid \<Rightarrow> int \<Rightarrow> int \<Rightarrow> real \<Rightarrow> int \<Rightarrow> int \<Rightarrow> nat
    \<Rightarrow> grid list \<times> int list \<times> heap \<times> rng \<Rightarrow> (grid list \<times> int list \<times> heap \<times> rng) res" where
  "runReplica fp originalPuzzle blockXDim blockYDim baseTemperature internalIterations swapCount i =
     (\<lambda>(annealerSolutions, annealerCosts, h, rs).
        bind_res (load annealerSolutions i) (\<lambda>candidateSolution.
        bind_res (annealerInternalIterator fp originalPuzzle candidateSolution blockXDim blockYDim
                    (fmul fp baseTemperature (2 ^ i)) internalIterations swapCount (h, rs))
          (\<lambda>(solution, cost, h, rs).
        bind_res (store annealerSolutions i solution) (\<lambda>annealerSolutions.
        bind_res (store annealerCosts i cost) (\<lambda>annealerCosts.
          Done (annealerSolutions, annealerCosts, h, rs))))))"

text \<open>The loop of lines 127-150, entered at most \<open>rounds\<close> times, and the return of line 152.\<close>

fun annealLoop :: "fpu \<Rightarrow> nat \<Rightarrow> grid \<Rightarrow> int \<Rightarrow> int \<Rightarrow> real \<Rightarrow> real \<Rightarrow> int \<Rightarrow> int \<Rightarrow> int
    \<Rightarrow> grid list \<Rightarrow> int list \<Rightarrow> heap \<times> rng \<Rightarrow> (grid \<times> bool \<times> heap \<times> rng) res" where
  "annealLoop fp rounds originalPuzzle blockXDim blockYDim baseTemperature coolingRate
     internalIterations swapCount concurrentAnnealerCount annealerSolutions annealerCosts (h, rs) =
     (if baseTemperature > finalTemperature
      then (case rounds of
              0 \<Rightarrow> Timeout
            | Suc rounds' \<Rightarrow>
                bind_res (for_each [0..<nat concurrentAnnealerCount]
                            (runReplica fp originalPuzzle blockXDim blockYDim baseTemperature
                               internalIterations swapCount)
                            (annealerSolutions, annealerCosts, h, rs))
                  (\<lambda>(annealerSolutions, annealerCosts, h, rs).
                bind_res (exchangePass concurrentAnnealerCount (annealerSolutions, annealerCosts))
                  (\<lambda>(annealerSolutions, annealerCosts).
                bind_res (load annealerCosts 0) (\<lambda>coldest.
                  if coldest = 0
                  then bind_res (load annealerSolutions 0)
                         (\<lambda>solvedPuzzle. Done (solvedPuzzle, True, h, rs))
                  else annealLoop fp rounds' originalPuzzle blockXDim blockYDim
                         (fmul fp baseTemperature coolingRate) coolingRate internalIterations
                         swapCount concurrentAnnealerCount annealerSolutions annealerCosts
                         (h, rs)))))
      else bind_res (load annealerSolutions 0) (\<lambda>solvedPuzzle. Done (solvedPuzzle, False, h, rs)))"

text \<open>Lines 118-124: the two slices of length \<^verbatim>\<open>concurrentAnnealerCount\<close> and their
  filling. A slice of grids starts with empty grids.\<close>

definition initialReplicas :: "grid \<Rightarrow> int \<Rightarrow> int \<Rightarrow> int \<Rightarrow> heap \<Rightarrow> (grid list \<times> int list \<times> heap) res" where
  "initialReplicas initialSolution blockXDim blockYDim concurrentAnnealerCount h =
     (if concurrentAnnealerCount < 0 then Panic MakesliceLenOutOfRange
      else for_each [0..<nat concurrentAnnealerCount]
             (\<lambda>i (annealerSolutions, annealerCosts, h).
                let (copiedPuzzle, h) = copyPuzzle initialSolution h
                in bind_res (store annealerSolutions i copiedPuzzle) (\<lambda>annealerSolutions.
                   bind_res (costFunction (rows h initialSolution) blockXDim blockYDim) (\<lambda>cost.
                   bind_res (store annealerCosts i cost) (\<lambda>annealerCosts.
                     Done (annealerSolutions, annealerCosts, h)))))
             (replicate (nat concurrentAnnealerCount) [],
              replicate (nat concurrentAnnealerCount) 0, h))"

text \<open>
  \<^verbatim>\<open>anneal\<close>. The rows that \<^verbatim>\<open>randomInitialization\<close> has made and filled are put into the
  store when it returns.
\<close>

definition allocGrid :: "puzzle \<Rightarrow> heap \<Rightarrow> grid \<times> heap" where
  "allocGrid p h = ([length h ..< length h + length p], h @ p)"

definition anneal :: "fpu \<Rightarrow> nat \<Rightarrow> int list \<Rightarrow> grid \<Rightarrow> int \<Rightarrow> int \<Rightarrow> real \<Rightarrow> real \<Rightarrow> int \<Rightarrow> int \<Rightarrow> int
    \<Rightarrow> heap \<times> rng \<Rightarrow> (grid \<times> bool \<times> heap \<times> rng) res" where
  "anneal fp rounds keyOrder originalPuzzle blockXDim blockYDim baseTemperature coolingRate
     internalIterations swapCount concurrentAnnealerCount = (\<lambda>(h, rs).
     bind_res (randomInitialization (rows h originalPuzzle) keyOrder rs) (\<lambda>(initialRows, rs).
     let (initialSolution, h) = allocGrid initialRows h
     in bind_res (initialReplicas initialSolution blockXDim blockYDim concurrentAnnealerCount h)
          (\<lambda>(annealerSolutions, annealerCosts, h).
             annealLoop fp rounds originalPuzzle blockXDim blockYDim baseTemperature coolingRate
               internalIterations swapCount concurrentAnnealerCount
               annealerSolutions annealerCosts (h, rs))))"

section \<open>Grids as the specification describes them\<close>

text \<open>
  A grid of side \<open>n\<close> has \<open>n\<close> rows of \<open>n\<close> cells with values from 0 to \<open>n\<close>. A block spans
  \<open>blockXDim\<close> consecutive values of the first index and \<open>blockYDim\<close> consecutive values of
  the second index. \<open>solved\<close> says that every digit from 1 to \<open>n\<close> occurs exactly once in every
  row, every column and every block; \<open>specCost\<close> is the sum of the deviations
  \<open>|occurrences - 1|\<close> over all digits, rows, columns and blocks.
\<close>

definition square :: "nat \<Rightarrow> puzzle \<Rightarrow> bool" where
  "square n g = (length g = n \<and> (\<forall>row \<in> set g. length row = n))"

definition inRange :: "nat \<Rightarrow> puzzle \<Rightarrow> bool" where
  "inRange n g = (\<forall>row \<in> set g. \<forall>v \<in> set row. 0 \<le> v \<and> v \<le> int n)"

definition rowCells :: "puzzle \<Rightarrow> nat \<Rightarrow> int list" where
  "rowCells g r = g ! r"

definition columnCells :: "puzzle \<Rightarrow> nat \<Rightarrow> int list" where
  "columnCells g c = map (\<lambda>row. row ! c) g"

definition blockCells :: "puzzle \<Rightarrow> nat \<Rightarrow> nat \<Rightarrow> nat \<Rightarrow> nat \<Rightarrow> int list" where
  "blockCells g X Y i j =
     map (\<lambda>(a, b). g ! (i * X + a) ! (j * Y + b)) (List.product [0..<X] [0..<Y])"

definition deviation :: "nat \<Rightarrow> int list \<Rightarrow> int" where
  "deviation n vs = (\<Sum>d = 1..n. \<bar>int (count_list vs (int d)) - 1\<bar>)"

definition specCost :: "puzzle \<Rightarrow> int \<Rightarrow> int \<Rightarrow> int" where
  "specCost g X Y =
     (let n = nat (X * Y)
      in (\<Sum>r < n. deviation n (rowCells g r)) + (\<Sum>c < n. deviation n (columnCells g c))
         + (\<Sum>i < nat Y. \<Sum>j < nat X. deviation n (blockCells g (nat X) (nat Y) i j)))"

definition solved :: "puzzle \<Rightarrow> int \<Rightarrow> int \<Rightarrow> bool" where
  "solved g X Y =
     (let n = nat (X * Y)
      in \<forall>d \<in> {1..n}.
           (\<forall>r < n. count_list (rowCells g r) (int d) = 1)
         \<and> (\<forall>c < n. count_list (columnCells g c) (int d) = 1)
         \<and> (\<forall>i < nat Y. \<forall>j < nat X. count_list (blockCells g (nat X) (nat Y) i j) (int d) = 1))"

definition tallied :: "nat \<Rightarrow> int list \<Rightarrow> int list" where
  "tallied n vs = map (\<lambda>m. int (count_list vs (int m + 1))) [0..<n]"

definition transposeGrid :: "puzzle \<Rightarrow> puzzle" where
  "transposeGrid g = map (\<lambda>j. map (\<lambda>row. row ! j) g) [0..<length g]"

text \<open>What \<^verbatim>\<open>getNeighbour\<close> keeps of the grid \<open>cur\<close> it starts from: the side, the
  multiset of all cell values, and the value of every cell that is a clue of \<open>orig\<close>.\<close>

definition neighbourInv :: "nat \<Rightarrow> puzzle \<Rightarrow> puzzle \<Rightarrow> puzzle \<Rightarrow> bool" where
  "neighbourInv n orig cur p = (square n p \<and> mset (concat p) = mset (concat cur)
      \<and> (\<forall>i < n. \<forall>j < n. 0 < orig ! i ! j \<longrightarrow> p ! i ! j = cur ! i ! j))"

text \<open>
  The store \<open>h'\<close> after \<^verbatim>\<open>getNeighbour\<close> has made the grid \<open>nb\<close> of \<open>n\<close> new rows in the store
  \<open>h\<close>: every array of \<open>h\<close> is as it was, and the new grid keeps of \<open>cur\<close> what
  \<open>neighbourInv\<close> says.
\<close>

definition swapInv :: "nat \<Rightarrow> heap \<Rightarrow> grid \<Rightarrow> grid \<Rightarrow> grid \<Rightarrow> heap \<Rightarrow> bool" where
  "swapInv n h orig cur nb h' =
     (length h' = length h + n \<and> take (length h) h' = h \<and> alive h' nb
      \<and> neighbourInv n (rows h orig) (rows h cur) (rows h' nb))"

text \<open>
  \<^verbatim>\<open>getNeighbour\<close> takes the values of the random source two by two, as the coordinates of
  a cell. \<open>blankDraws\<close> counts the pairs of a source that are the coordinates of a blank
  cell of the clue grid.
\<close>

fun pairs :: "nat list \<Rightarrow> (nat \<times> nat) list" where
  "pairs (x # y # rs) = (x, y) # pairs rs"
| "pairs [x] = []"
| "pairs [] = []"

definition blankDraws :: "puzzle \<Rightarrow> rng \<Rightarrow> nat" where
  "blankDraws clues rs =
     length (filter (\<lambda>(x, y). clues ! (x mod length clues) ! (y mod length clues) \<le> 0) (pairs rs))"

text \<open>
  What the scan of lines 333-350 computes on a square clue grid: the map of the numbers
  still to place (\<open>countDown\<close> takes one off for every clue), the empty spots in the order
  of the scan, and the grid of the clues with 0 elsewhere. \<open>placements\<close> lists the numbers
  that lines 354-362 place, in the order of the keys.
\<close>

definition countDown :: "counts \<Rightarrow> int list \<Rightarrow> counts" where
  "countDown m vs = foldl (\<lambda>m v. if 0 < v then m(v \<mapsto> lookup m v - 1) else m) m vs"

definition blankSpots :: "nat \<Rightarrow> puzzle \<Rightarrow> (nat \<times> nat) list" where
  "blankSpots n orig =
     concat (map (\<lambda>i. map (Pair i) (filter (\<lambda>j. \<not> 0 < orig ! i ! j) [0..<n])) [0..<n])"

definition cleaned :: "puzzle \<Rightarrow> puzzle" where
  "cleaned orig = map (map (\<lambda>v. if 0 < v then v else 0)) orig"

definition placements :: "counts \<Rightarrow> int list \<Rightarrow> int list" where
  "placements m keyOrder = concat (map (\<lambda>k. replicate (nat (lookup m k)) k) keyOrder)"

text \<open>
  \<open>safe t P r\<close> says of an outcome \<open>r\<close> that it is not a panic, that it is a timeout only
  if \<open>t\<close> allows it, and that \<open>P\<close> holds of what is returned. \<open>grown h h'\<close> says that the
  store \<open>h'\<close> holds every array of \<open>h\<close> unchanged. A \<open>candidate\<close> is a grid of the store
  that is square, holds a given multiset of values and has the clue value at every clue
  cell; \<open>replicas\<close> says that the solutions of the coordinator are candidates and that the
  costs are their costs.
\<close>

definition safe :: "bool \<Rightarrow> ('a \<Rightarrow> bool) \<Rightarrow> 'a res \<Rightarrow> bool" where
  "safe t P r = (case r of Done x \<Rightarrow> P x | Panic e \<Rightarrow> False | Starved \<Rightarrow> True | Timeout \<Rightarrow> t)"

definition grown :: "heap \<Rightarrow> heap \<Rightarrow> bool" where
  "grown h h' = (take (length h) h' = h)"

definition candidate :: "nat \<Rightarrow> puzzle \<Rightarrow> int multiset \<Rightarrow> heap \<Rightarrow> grid \<Rightarrow> bool" where
  "candidate n clues M h g =
     (alive h g \<and> square n (rows h g) \<and> mset (concat (rows h g)) = M
      \<and> (\<forall>i < n. \<forall>j < n. 0 < clues ! i ! j \<longrightarrow> rows h g ! i ! j = clues ! i ! j))"

definition replicas :: "nat \<Rightarrow> puzzle \<Rightarrow> int multiset \<Rightarrow> int \<Rightarrow> int \<Rightarrow> nat \<Rightarrow> heap \<Rightarrow> grid list \<Rightarrow> int list
    \<Rightarrow> bool" where
  "replicas n clues M X Y R h sols costs =
     (length sols = R \<and> length costs = R
      \<and> (\<forall>(g, c) \<in> set (zip sols costs). candidate n clues M h g \<and> c = specCost (rows h g) X Y))"

definition exampleSolved :: puzzle where
  "exampleSolved = [[1, 2, 3, 4], [3, 4, 1, 2], [2, 1, 4, 3], [4, 3, 2, 1]]"

definition exampleClues :: puzzle where
  "exampleClues = [[1, 0, 3, 4], [3, 4, 0, 2], [0, 1, 4, 3], [4, 3, 2, 0]]"


definition exampleStore :: heap where
  "exampleStore = exampleClues @ exampleSolved"

definition exampleSix :: puzzle where
  "exampleSix = [[1, 2, 3, 4, 5, 6], [4, 5, 6, 1, 2, 3], [2, 3, 0, 5, 6, 4],
                 [5, 6, 4, 2, 3, 1], [3, 1, 2, 6, 0, 5], [6, 4, 5, 3, 1, 1]]"

section \<open>Loops that return\<close>

lemma for_each_append:
  "for_each (xs @ ys) body s = bind_res (for_each xs body s) (for_each ys body)"
proof (induction xs arbitrary: s)
  case Nil show ?case by simp
next
  case (Cons x xs)
  show ?case by (cases "body x s") (simp_all add: Cons.IH)
qed

lemma for_each_total:
  assumes "I s" and "\<And>x s. x \<in> set xs \<Longrightarrow> I s \<Longrightarrow> \<exists>s'. body x s = Done s' \<and> I s'"
  shows "\<exists>s'. for_each xs body s = Done s' \<and> I s'"
  using assms
proof (induction xs arbitrary: s)
  case Nil then show ?case by simp
next
  case (Cons x xs)
  from Cons.prems obtain s1 where s1: "body x s = Done s1" "I s1" by (meson list.set_intros(1))
  have "\<exists>s'. for_each xs body s1 = Done s' \<and> I s'"
    by (rule Cons.IH[OF s1(2)]) (use Cons.prems(2) in auto)
  with s1 show ?case by simp
qed

lemma for_each_partial:
  assumes "for_each xs body s = Done s'" and "I s"
    and "\<And>x s s'. x \<in> set xs \<Longrightarrow> I s \<Longrightarrow> body x s = Done s' \<Longrightarrow> I s'"
  shows "I s'"
  using assms
proof (induction xs arbitrary: s)
  case Nil then show ?case by simp
next
  case (Cons x xs)
  from Cons.prems(1) obtain s1 where s1: "body x s = Done s1" "for_each xs body s1 = Done s'"
    by (cases "body x s") auto
  have "I s1" using Cons.prems(3)[OF _ Cons.prems(2) s1(1)] by simp
  show ?case by (rule Cons.IH[OF s1(2) \<open>I s1\<close>]) (use Cons.prems(3) in auto)
qed

lemma exchangeStep_keeps:
  assumes "0 < i" "i < length sols" "length costs = length sols"
  shows "\<exists>sols' costs'. exchangeStep i (sols, costs) = Done (sols', costs')
           \<and> length sols' = length sols \<and> length costs' = length sols
           \<and> mset (zip sols' costs') = mset (zip sols costs)"
proof (cases "costs ! i < costs ! (i - 1)")
  case False
  with assms show ?thesis by (simp add: exchangeStep_def load_def)
next
  case True
  let ?z = "zip sols costs"
  have len: "i < length ?z" "i - 1 < length ?z" using assms by simp_all
  have "zip (sols[i := sols ! (i - 1), i - 1 := sols ! i]) (costs[i := costs ! (i - 1), i - 1 := costs ! i])
        = ?z[i := ?z ! (i - 1), i - 1 := ?z ! i]"
    using assms by (simp add: zip_update)
  moreover have "mset (?z[i := ?z ! (i - 1), i - 1 := ?z ! i]) = mset ?z"
    by (rule mset_swap[OF len(2) len(1)])
  ultimately show ?thesis using True assms
    by (simp add: exchangeStep_def load_def store_def)
qed

text \<open>
  Claim C5. One exchange pass over \<open>R\<close> solutions and \<open>R\<close> costs returns, keeps both
  lengths and holds the same multiset of (solution, cost) pairs as before: slots are only
  permuted.
\<close>

theorem exchangePass_keeps:
  assumes "length sols = nat R" "length costs = nat R"
  shows "\<exists>sols' costs'. exchangePass R (sols, costs) = Done (sols', costs')
           \<and> length sols' = nat R \<and> length costs' = nat R
           \<and> mset (zip sols' costs') = mset (zip sols costs)"
proof -
  let ?I = "\<lambda>(s, c). length s = nat R \<and> length c = nat R \<and> mset (zip s c) = mset (zip sols costs)"
  have "\<exists>s'. for_each (rev [1..<nat R]) exchangeStep (sols, costs) = Done s' \<and> ?I s'"
  proof (rule for_each_total[where I = ?I])
    show "?I (sols, costs)" using assms by simp
  next
    fix x s assume x: "x \<in> set (rev [1..<nat R])" and I: "?I s"
    obtain a b where s: "s = (a, b)" by (cases s)
    from exchangeStep_keeps[of x a b] x I s
    show "\<exists>s'. exchangeStep x s = Done s' \<and> ?I s'" by auto
  qed
  then show ?thesis by (auto simp: exchangePass_def)
qed

theorem exchangePass_keeps_witness:
  "length [[[1, 2], [2, 1]], [[2, 1], [1, 2]], [[1, 1], [2, 2 :: int]]] = nat 3
   \<and> length [5, 3, 4 :: int] = nat 3
   \<and> (\<exists>sols' costs'.
        exchangePass 3 ([[[1, 2], [2, 1]], [[2, 1], [1, 2]], [[1, 1], [2, 2]]], [5, 3, 4])
          = Done (sols', costs')
        \<and> length sols' = nat 3 \<and> length costs' = nat 3
        \<and> mset (zip sols' costs')
          = mset (zip [[[1, 2], [2, 1]], [[2, 1], [1, 2]], [[1, 1], [2, 2]]] [5, 3, 4]))"
  using exchangePass_keeps [of "[[[1, 2], [2, 1]], [[2, 1], [1, 2]], [[1, 1], [2, 2]]]" 3 "[5, 3, 4]"]
  by simp

section \<open>The cost function computes the specified cost\<close>

lemma for_each_prefix:
  assumes "P [] s"
    and "\<And>pre x s. x \<in> set xs \<Longrightarrow> P pre s \<Longrightarrow> \<exists>s'. body x s = Done s' \<and> P (pre @ [x]) s'"
  shows "\<exists>s'. for_each xs body s = Done s' \<and> P xs s'"
  using assms(2)
proof (induction xs rule: rev_induct)
  case Nil
  show ?case using assms(1) by simp
next
  case (snoc x xs)
  have "\<exists>s'. for_each xs body s = Done s' \<and> P xs s'"
    by (rule snoc.IH) (use snoc.prems in auto)
  then obtain s1 where s1: "for_each xs body s = Done s1" "P xs s1" by blast
  from snoc.prems[of x xs s1] s1(2) obtain s2 where "body x s1 = Done s2" "P (xs @ [x]) s2"
    by auto
  then show ?case using s1 by (simp add: for_each_append)
qed

lemma tally_tallied:
  assumes "0 \<le> v" "v \<le> int n"
  shows "tally (tallied n vs) v = Done (tallied n (vs @ [v]))"
proof (cases "v > 0")
  case False
  with assms have "v = 0" by simp
  then show ?thesis by (simp add: tally_def tallied_def)
next
  case True
  with assms have lt: "nat (v - 1) < n" by linarith
  have "(tallied n vs)[nat (v - 1) := tallied n vs ! nat (v - 1) + 1] = tallied n (vs @ [v])"
  proof (rule nth_equalityI)
    show "length ((tallied n vs)[nat (v - 1) := tallied n vs ! nat (v - 1) + 1]) = length (tallied n (vs @ [v]))"
      by (simp add: tallied_def)
  next
    fix m assume "m < length ((tallied n vs)[nat (v - 1) := tallied n vs ! nat (v - 1) + 1])"
    then have m: "m < n" by (simp add: tallied_def)
    show "(tallied n vs)[nat (v - 1) := tallied n vs ! nat (v - 1) + 1] ! m = tallied n (vs @ [v]) ! m"
    proof (cases "m = nat (v - 1)")
      case True
      with \<open>v > 0\<close> have "int m + 1 = v" by simp
      with True m show ?thesis by (simp add: tallied_def)
    next
      case False
      with \<open>v > 0\<close> have "int m + 1 \<noteq> v" by linarith
      with False m show ?thesis by (simp add: tallied_def)
    qed
  qed
  with True lt show ?thesis by (simp add: tally_def load_def store_def tallied_def)
qed

lemma foldl_add_abs:
  "foldl (\<lambda>cost count. cost + \<bar>count - 1\<bar>) c xs = c + sum_list (map (\<lambda>count. \<bar>count - (1::int)\<bar>) xs)"
  by (induction xs arbitrary: c) simp_all

lemma addDeviations_tallied: "addDeviations c (tallied n vs) = c + deviation n vs"
proof -
  have "sum_list (map (\<lambda>count. \<bar>count - (1::int)\<bar>) (tallied n vs))
        = (\<Sum>m = 0..<n. \<bar>int (count_list vs (int m + 1)) - 1\<bar>)"
    by (simp add: tallied_def comp_def interv_sum_list_conv_sum_set_nat)
  also have "\<dots> = (\<Sum>d = 1..n. \<bar>int (count_list vs (int d)) - 1\<bar>)"
    by (rule sum.reindex_bij_witness[where i = "\<lambda>d. d - 1" and j = Suc]) (auto simp: add.commute)
  finally show ?thesis by (simp add: addDeviations_def foldl_add_abs deviation_def)
qed

lemma load2_cell:
  assumes "square n g" "i < n" "j < n"
  shows "load2 g i j = Done (g ! i ! j)"
  using assms by (simp add: load2_def load_def square_def)

lemma cell_inRange:
  assumes "square n g" "inRange n g" "i < n" "j < n"
  shows "0 \<le> g ! i ! j \<and> g ! i ! j \<le> int n"
proof -
  have "g ! i \<in> set g" using assms by (simp add: square_def)
  moreover have "g ! i ! j \<in> set (g ! i)" using assms by (simp add: square_def)
  ultimately show ?thesis using assms(2) by (auto simp: inRange_def)
qed

lemma tallied_Nil: "tallied n [] = replicate n 0"
  by (simp add: tallied_def map_replicate_const)

lemma countLine_loop:
  assumes "square n g" "inRange n g" "dim1 < n"
  shows "for_each [0..<n] (countLine g dim1) (replicate n 0, replicate n 0)
         = Done (tallied n (rowCells g dim1), tallied n (columnCells g dim1))"
proof -
  let ?P = "\<lambda>pre (rc, cc). rc = tallied n (map (\<lambda>j. g ! dim1 ! j) pre)
                          \<and> cc = tallied n (map (\<lambda>j. g ! j ! dim1) pre)"
  have "\<exists>s'. for_each [0..<n] (countLine g dim1) (replicate n 0, replicate n 0) = Done s'
              \<and> ?P [0..<n] s'"
  proof (rule for_each_prefix[where P = ?P])
    show "?P [] (replicate n 0, replicate n 0)" by (simp add: tallied_Nil)
  next
    fix pre x s assume x: "x \<in> set [0..<n]" and P: "?P pre s"
    then have xn: "x < n" by simp
    obtain rc cc where s: "s = (rc, cc)" by (cases s)
    note a = cell_inRange[OF assms(1,2) assms(3) xn] and b = cell_inRange[OF assms(1,2) xn assms(3)]
    show "\<exists>s'. countLine g dim1 x s = Done s' \<and> ?P (pre @ [x]) s'"
      using P s a b
      by (simp add: countLine_def load2_cell[OF assms(1) assms(3) xn]
          load2_cell[OF assms(1) xn assms(3)] tally_tallied)
  qed
  moreover have "map (\<lambda>j. g ! dim1 ! j) [0..<n] = rowCells g dim1"
  proof -
    have "length (g ! dim1) = n" using assms by (simp add: square_def)
    then show ?thesis using map_nth[of "g ! dim1"] by (simp add: rowCells_def)
  qed
  moreover have "map (\<lambda>j. g ! j ! dim1) [0..<n] = columnCells g dim1"
    using assms(1) by (auto simp: columnCells_def square_def intro!: nth_equalityI)
  ultimately show ?thesis by auto
qed

lemma lineCost_eq:
  assumes "square n g" "inRange n g" "dim1 < n"
  shows "lineCost g n dim1 cost
         = Done (cost + deviation n (rowCells g dim1) + deviation n (columnCells g dim1))"
  by (simp add: lineCost_def countLine_loop[OF assms] addDeviations_tallied)

lemma lineCost_loop:
  assumes "square n g" "inRange n g"
  shows "for_each [0..<n] (lineCost g n) 0
         = Done ((\<Sum>r < n. deviation n (rowCells g r)) + (\<Sum>c < n. deviation n (columnCells g c)))"
proof -
  let ?f = "\<lambda>d. deviation n (rowCells g d) + deviation n (columnCells g d)"
  let ?P = "\<lambda>pre cost. cost = sum_list (map ?f pre)"
  have "\<exists>s'. for_each [0..<n] (lineCost g n) 0 = Done s' \<and> ?P [0..<n] s'"
  proof (rule for_each_prefix[where P = ?P])
    show "?P [] 0" by simp
  next
    fix pre x s assume "x \<in> set [0..<n]" and P: "?P pre s"
    then have "x < n" by simp
    from lineCost_eq[OF assms this] P
    show "\<exists>s'. lineCost g n x s = Done s' \<and> ?P (pre @ [x]) s'" by simp
  qed
  moreover have "sum_list (map ?f [0..<n])
      = (\<Sum>r < n. deviation n (rowCells g r)) + (\<Sum>c < n. deviation n (columnCells g c))"
    by (simp add: interv_sum_list_conv_sum_set_nat sum.distrib atLeast0LessThan)
  ultimately show ?thesis by auto
qed

lemma deviation_cong: "mset vs = mset ws \<Longrightarrow> deviation n vs = deviation n ws"
proof -
  assume "mset vs = mset ws"
  then have "count (mset vs) d = count (mset ws) d" for d by simp
  then have "count_list vs d = count_list ws d" for d by (simp only: count_mset)
  then show ?thesis by (simp add: deviation_def)
qed

lemma mset_mod_div_product:
  assumes "0 < X"
  shows "mset (map (\<lambda>k. (k mod X, k div X)) [0..<X * Y]) = mset (List.product [0..<X] [0..<Y])"
proof -
  let ?f = "\<lambda>k. (k mod X, k div X)"
  have inj: "inj_on ?f (set [0..<X * Y])"
  proof (rule inj_onI)
    fix a b assume "?f a = ?f b"
    then have "a mod X = b mod X" "a div X = b div X" by simp_all
    then show "a = b" by (metis div_mult_mod_eq)
  qed
  have d1: "distinct (map ?f [0..<X * Y])" using inj by (simp add: distinct_map)
  have d2: "distinct (List.product [0..<X] [0..<Y])" by (simp add: distinct_product)
  have "set (map ?f [0..<X * Y]) = set (List.product [0..<X] [0..<Y])"
  proof (rule set_eqI)
    fix p :: "nat \<times> nat"
    obtain a b where p: "p = (a, b)" by (cases p)
    show "p \<in> set (map ?f [0..<X * Y]) \<longleftrightarrow> p \<in> set (List.product [0..<X] [0..<Y])"
    proof
      assume "p \<in> set (map ?f [0..<X * Y])"
      then obtain k where k: "k < X * Y" "a = k mod X" "b = k div X" using p by auto
      then have "a < X" "b < Y" using assms by (simp_all add: less_mult_imp_div_less mult.commute)
      then show "p \<in> set (List.product [0..<X] [0..<Y])" using p by simp
    next
      assume "p \<in> set (List.product [0..<X] [0..<Y])"
      then have ab: "a < X" "b < Y" using p by simp_all
      let ?k = "b * X + a"
      have "?k < X * Y"
      proof -
        have "?k < b * X + X" using ab by simp
        also have "\<dots> = (Suc b) * X" by simp
        also have "\<dots> \<le> Y * X" using ab by (intro mult_le_mono1) simp
        finally show ?thesis by (simp add: mult.commute)
      qed
      moreover have "?f ?k = (a, b)" using ab by simp
      ultimately show "p \<in> set (map ?f [0..<X * Y])" using p
        by (metis (no_types, lifting) atLeast0LessThan image_eqI lessThan_iff list.set_map set_upt)
    qed
  qed
  then show ?thesis using d1 d2 by (simp only: set_eq_iff_mset_eq_distinct[symmetric])
qed

lemma int64_id:
  assumes "- (2 ^ 63) \<le> k" "k < 2 ^ 63"
  shows "int64 k = k"
proof -
  have "0 \<le> k + 2 ^ 63" "k + 2 ^ 63 < 2 ^ 64" using assms by simp_all
  then have "(k + 2 ^ 63) mod 2 ^ 64 = k + 2 ^ 63" by (rule mod_pos_pos_trivial)
  then show ?thesis by (simp add: int64_def)
qed

lemma int64_nat:
  assumes "int m < 2 ^ 63"
  shows "int64 (int m) = int m"
  by (rule int64_id) (use assms in simp_all)

lemma loadAt_int: "loadAt xs (int m) = load xs m"
  by (simp add: loadAt_def load_def)

lemma block_index_bounds:
  fixes X Y :: nat
  assumes "i < Y" "j < X" "k < X * Y"
  shows "i * X + k mod X < X * Y" "j * Y + k div X < X * Y"
proof -
  have X: "0 < X" using assms by auto
  have "i * X + k mod X < i * X + X" using X by simp
  also have "\<dots> = Suc i * X" by simp
  also have "\<dots> \<le> Y * X" using assms by (intro mult_le_mono1) simp
  finally show "i * X + k mod X < X * Y" by (simp add: mult.commute)
  have "k div X < Y" using assms X by (simp add: less_mult_imp_div_less mult.commute)
  then have "j * Y + k div X < j * Y + Y" by simp
  also have "\<dots> = Suc j * Y" by simp
  also have "\<dots> \<le> X * Y" using assms by (intro mult_le_mono1) simp
  finally show "j * Y + k div X < X * Y" .
qed

lemma block_index_int64:
  fixes X Y :: nat
  assumes "i < Y" "j < X" "k < X * Y" "int (X * Y) < 2 ^ 63"
  shows "int64 (int64 (int i * int X) + int k mod int X) = int (i * X + k mod X)"
    and "int64 (int64 (int j * int Y) + int k div int X) = int (j * Y + k div X)"
proof -
  note b = block_index_bounds[OF assms(1-3)]
  have "int (i * X) < 2 ^ 63" "int (i * X + k mod X) < 2 ^ 63"
    using b(1) assms(4) by linarith+
  then show "int64 (int64 (int i * int X) + int k mod int X) = int (i * X + k mod X)"
    using int64_nat[of "i * X"] int64_nat[of "i * X + k mod X"] by (simp add: zmod_int)
  have "int (j * Y) < 2 ^ 63" "int (j * Y + k div X) < 2 ^ 63"
    using b(2) assms(4) by linarith+
  then show "int64 (int64 (int j * int Y) + int k div int X) = int (j * Y + k div X)"
    using int64_nat[of "j * Y"] int64_nat[of "j * Y + k div X"] by (simp add: zdiv_int)
qed

lemma countBlock_loop:
  assumes "square (X * Y) g" "inRange (X * Y) g" "i < Y" "j < X" "int (X * Y) < 2 ^ 63"
  shows "for_each [0..<X * Y] (countBlock g (int X) (int Y) i j) (replicate (X * Y) 0)
         = Done (tallied (X * Y) (map (\<lambda>k. g ! (i * X + k mod X) ! (j * Y + k div X)) [0..<X * Y]))"
proof -
  let ?n = "X * Y"
  let ?c = "\<lambda>k. g ! (i * X + k mod X) ! (j * Y + k div X)"
  let ?P = "\<lambda>pre bc. bc = tallied ?n (map ?c pre)"
  have "\<exists>s'. for_each [0..<?n] (countBlock g (int X) (int Y) i j) (replicate ?n 0) = Done s'
             \<and> ?P [0..<?n] s'"
  proof (rule for_each_prefix[where P = ?P])
    show "?P [] (replicate ?n 0)" by (simp add: tallied_Nil)
  next
    fix pre x s assume "x \<in> set [0..<?n]" and P: "?P pre s"
    then have xn: "x < ?n" by simp
    note b = block_index_bounds[OF assms(3,4) xn]
    note w = block_index_int64[OF assms(3,4) xn assms(5)]
    note r = cell_inRange[OF assms(1,2) b]
    have "bind_res (load g (i * X + x mod X)) (\<lambda>row. load row (j * Y + x div X))
          = Done (g ! (i * X + x mod X) ! (j * Y + x div X))"
      using load2_cell[OF assms(1) b] by (simp add: load2_def)
    then have "bind_res (load g (i * X + x mod X))
                 (\<lambda>row. bind_res (load row (j * Y + x div X)) (tally s))
          = tally s (g ! (i * X + x mod X) ! (j * Y + x div X))"
      by (cases "load g (i * X + x mod X)") simp_all
    then show "\<exists>s'. countBlock g (int X) (int Y) i j x s = Done s' \<and> ?P (pre @ [x]) s'"
      using P r by (simp only: countBlock_def Let_def w loadAt_int) (simp add: tally_tallied)
  qed
  then show ?thesis by auto
qed

lemma blockCost_eq:
  assumes "square (X * Y) g" "inRange (X * Y) g" "i < Y" "j < X" "int (X * Y) < 2 ^ 63"
  shows "blockCost g (int (X * Y)) (int X) (int Y) i j cost
         = Done (cost + deviation (X * Y) (blockCells g X Y i j))"
proof -
  have X: "0 < X" using assms by auto
  let ?h = "\<lambda>(a, b). g ! (i * X + a) ! (j * Y + b)"
  have "map (\<lambda>k. g ! (i * X + k mod X) ! (j * Y + k div X)) [0..<X * Y]
        = map ?h (map (\<lambda>k. (k mod X, k div X)) [0..<X * Y])" by simp
  then have "mset (map (\<lambda>k. g ! (i * X + k mod X) ! (j * Y + k div X)) [0..<X * Y])
        = image_mset ?h (mset (map (\<lambda>k. (k mod X, k div X)) [0..<X * Y]))"
    by (simp only: mset_map)
  also have "\<dots> = image_mset ?h (mset (List.product [0..<X] [0..<Y]))"
    by (simp only: mset_mod_div_product[OF X])
  also have "\<dots> = mset (blockCells g X Y i j)"
    by (simp only: blockCells_def mset_map)
  finally have dev: "deviation (X * Y) (map (\<lambda>k. g ! (i * X + k mod X) ! (j * Y + k div X)) [0..<X * Y])
      = deviation (X * Y) (blockCells g X Y i j)" by (rule deviation_cong)
  have nn: "\<not> int (X * Y) < 0" by (simp only: of_nat_less_0_iff not_False_eq_True)
  show ?thesis
    by (simp only: blockCost_def nat_int countBlock_loop[OF assms] nn if_False bind_res.simps
        addDeviations_tallied dev)
qed

lemma blockCost_loop:
  assumes "square (X * Y) g" "inRange (X * Y) g" "int (X * Y) < 2 ^ 63"
  shows "for_each [0..<Y] (\<lambda>i. for_each [0..<X] (blockCost g (int (X * Y)) (int X) (int Y) i)) cost
         = Done (cost + (\<Sum>i < Y. \<Sum>j < X. deviation (X * Y) (blockCells g X Y i j)))"
proof -
  let ?d = "\<lambda>i j. deviation (X * Y) (blockCells g X Y i j)"
  have inner: "for_each [0..<X] (blockCost g (int (X * Y)) (int X) (int Y) i) c
      = Done (c + (\<Sum>j < X. ?d i j))"
    if "i < Y" for i c
  proof -
    let ?P = "\<lambda>pre s. s = c + sum_list (map (?d i) pre)"
    have "\<exists>s'. for_each [0..<X] (blockCost g (int (X * Y)) (int X) (int Y) i) c = Done s'
               \<and> ?P [0..<X] s'"
    proof (rule for_each_prefix[where P = ?P])
      show "?P [] c" by simp
    next
      fix pre x s assume "x \<in> set [0..<X]" and P: "?P pre s"
      then have "x < X" by simp
      from blockCost_eq[OF assms(1,2) that this assms(3)] P
      show "\<exists>s'. blockCost g (int (X * Y)) (int X) (int Y) i x s = Done s' \<and> ?P (pre @ [x]) s'"
        by simp
    qed
    then show ?thesis by (auto simp: interv_sum_list_conv_sum_set_nat atLeast0LessThan)
  qed
  let ?Q = "\<lambda>pre s. s = cost + sum_list (map (\<lambda>i. \<Sum>j < X. ?d i j) pre)"
  have "\<exists>s'. for_each [0..<Y] (\<lambda>i. for_each [0..<X] (blockCost g (int (X * Y)) (int X) (int Y) i))
               cost = Done s'
             \<and> ?Q [0..<Y] s'"
  proof (rule for_each_prefix[where P = ?Q])
    show "?Q [] cost" by simp
  next
    fix pre x s assume "x \<in> set [0..<Y]" and Q: "?Q pre s"
    then have "x < Y" by simp
    from inner[OF this] Q
    show "\<exists>s'. for_each [0..<X] (blockCost g (int (X * Y)) (int X) (int Y) x) s = Done s'
               \<and> ?Q (pre @ [x]) s'"
      by simp
  qed
  then show ?thesis by (auto simp: interv_sum_list_conv_sum_set_nat atLeast0LessThan)
qed

lemma costFunction_specCost:
  assumes "0 < X" "0 < Y" "X * Y < 2 ^ 63"
    and "square (nat (X * Y)) g" "inRange (nat (X * Y)) g"
  shows "costFunction g X Y = Done (specCost g X Y)"
proof -
  let ?n = "nat (X * Y)"
  have n: "?n = nat X * nat Y" using assms(1,2) by (simp add: nat_mult_distrib)
  have XY: "int (nat X) = X" "int (nat Y) = Y" "int (nat X * nat Y) = X * Y"
    using assms(1,2) by simp_all
  have small: "int (nat X * nat Y) < 2 ^ 63" using assms(3) by (simp only: XY(3))
  have pos: "0 \<le> X * Y" using assms(1,2) by simp
  have w: "int64 (X * Y) = X * Y" by (rule int64_id) (use assms(3) pos in simp_all)
  have sq: "square (nat X * nat Y) g" and rg: "inRange (nat X * nat Y) g"
    using assms(4,5) n by simp_all
  have "for_each [0..<nat Y]
          (\<lambda>i. for_each [0..<nat X] (blockCost g (int (nat X * nat Y)) (int (nat X)) (int (nat Y)) i)) c
      = Done (c + (\<Sum>i < nat Y. \<Sum>j < nat X.
                     deviation (nat X * nat Y) (blockCells g (nat X) (nat Y) i j)))" for c
    by (rule blockCost_loop[OF sq rg small])
  then have blocks: "for_each [0..<nat Y] (\<lambda>i. for_each [0..<nat X] (blockCost g (X * Y) X Y i)) c
      = Done (c + (\<Sum>i < nat Y. \<Sum>j < nat X. deviation ?n (blockCells g (nat X) (nat Y) i j)))" for c
    by (simp only: XY n)
  show ?thesis
    by (simp add: costFunction_def Let_def w lineCost_loop[OF assms(4,5)] blocks specCost_def)
qed

lemma deviation_nonneg: "0 \<le> deviation n vs"
  by (simp add: deviation_def sum_nonneg)

lemma deviation_zero_iff:
  "deviation n vs = 0 \<longleftrightarrow> (\<forall>d \<in> {1..n}. count_list vs (int d) = 1)"
proof -
  have "deviation n vs = 0 \<longleftrightarrow> (\<forall>d \<in> {1..n}. \<bar>int (count_list vs (int d)) - 1\<bar> = 0)"
    unfolding deviation_def by (rule sum_nonneg_eq_0_iff) simp_all
  then show ?thesis by simp
qed

lemma sum_deviation_zero_iff:
  fixes f :: "nat \<Rightarrow> int list"
  shows "(\<Sum>r < m. deviation n (f r)) = 0 \<longleftrightarrow> (\<forall>r < m. deviation n (f r) = 0)"
proof -
  have "(\<Sum>r < m. deviation n (f r)) = 0 \<longleftrightarrow> (\<forall>r \<in> {..<m}. deviation n (f r) = 0)"
    by (rule sum_nonneg_eq_0_iff) (simp_all add: deviation_nonneg)
  then show ?thesis by (simp only: Ball_def lessThan_iff)
qed

lemma specCost_nonneg: "0 \<le> specCost g X Y"
  by (simp add: specCost_def Let_def sum_nonneg deviation_nonneg)

lemma specCost_zero_iff: "specCost g X Y = 0 \<longleftrightarrow> solved g X Y"
proof -
  let ?n = "nat (X * Y)"
  let ?A = "\<Sum>r < ?n. deviation ?n (rowCells g r)"
  let ?B = "\<Sum>c < ?n. deviation ?n (columnCells g c)"
  let ?Ci = "\<lambda>i. \<Sum>j < nat X. deviation ?n (blockCells g (nat X) (nat Y) i j)"
  let ?C = "\<Sum>i < nat Y. ?Ci i"
  have nn: "0 \<le> ?A" "0 \<le> ?B" "0 \<le> ?C" "\<And>i. 0 \<le> ?Ci i"
    by (simp_all add: sum_nonneg deviation_nonneg)
  have "specCost g X Y = 0 \<longleftrightarrow> ?A = 0 \<and> ?B = 0 \<and> ?C = 0"
    using nn(1-3) by (simp add: specCost_def Let_def) linarith
  moreover have "?A = 0 \<longleftrightarrow> (\<forall>r < ?n. \<forall>d \<in> {1..?n}. count_list (rowCells g r) (int d) = 1)"
    by (simp only: sum_deviation_zero_iff deviation_zero_iff)
  moreover have "?B = 0 \<longleftrightarrow> (\<forall>c < ?n. \<forall>d \<in> {1..?n}. count_list (columnCells g c) (int d) = 1)"
    by (simp only: sum_deviation_zero_iff deviation_zero_iff)
  moreover have "?C = 0 \<longleftrightarrow> (\<forall>i < nat Y. ?Ci i = 0)"
  proof -
    have "?C = 0 \<longleftrightarrow> (\<forall>i \<in> {..<nat Y}. ?Ci i = 0)"
      by (rule sum_nonneg_eq_0_iff) (simp_all add: nn(4))
    then show ?thesis by (simp only: Ball_def lessThan_iff)
  qed
  moreover have "?Ci i = 0 \<longleftrightarrow> (\<forall>j < nat X. \<forall>d \<in> {1..?n}.
      count_list (blockCells g (nat X) (nat Y) i j) (int d) = 1)" for i
    by (simp only: sum_deviation_zero_iff deviation_zero_iff)
  ultimately show ?thesis
    unfolding solved_def Let_def by (simp only:) blast
qed

text \<open>
  Claim C1. Let both block dimensions be positive with a product \<open>n\<close> that a machine integer
  holds. On a square grid of side \<open>n\<close> with values from 0 to \<open>n\<close>, \<open>costFunction\<close> returns
  a cost that is not negative, and the cost is 0 exactly when every digit from 1 to \<open>n\<close>
  occurs once in every row, every column and every block (a block spanning \<open>blockXDim\<close>
  values of the first index and \<open>blockYDim\<close> values of the second).
\<close>

theorem costFunction_zero_iff_solved:
  assumes "0 < blockXDim" "0 < blockYDim" "blockXDim * blockYDim < 2 ^ 63"
    and "square (nat (blockXDim * blockYDim)) puzzle"
    and "inRange (nat (blockXDim * blockYDim)) puzzle"
  shows "\<exists>cost. costFunction puzzle blockXDim blockYDim = Done cost \<and> 0 \<le> cost
           \<and> (cost = 0 \<longleftrightarrow> solved puzzle blockXDim blockYDim)"
  using costFunction_specCost[OF assms] specCost_nonneg specCost_zero_iff by simp

theorem costFunction_zero_iff_solved_witness:
  "(0::int) < 2 \<and> (2::int) * 2 < 2 ^ 63
   \<and> square (nat (2 * 2)) exampleSolved \<and> inRange (nat (2 * 2)) exampleSolved
   \<and> (\<exists>cost. costFunction exampleSolved 2 2 = Done cost \<and> 0 \<le> cost
        \<and> (cost = 0 \<longleftrightarrow> solved exampleSolved 2 2))"
proof -
  have d: "(0::int) < 2" "(2::int) * 2 < 2 ^ 63" by simp_all
  have sq: "square (nat (2 * 2)) exampleSolved" by (simp add: square_def exampleSolved_def)
  have rg: "inRange (nat (2 * 2)) exampleSolved" by (simp add: inRange_def exampleSolved_def)
  from costFunction_zero_iff_solved [OF d(1) d(1) d(2) sq rg] d sq rg show ?thesis by simp
qed

section \<open>Transposing a grid\<close>

lemma square_transposeGrid:
  assumes "square n g"
  shows "square n (transposeGrid g)"
  using assms by (simp add: square_def transposeGrid_def)

lemma transposeGrid_nth:
  assumes "square n g" "i < n" "j < n"
  shows "transposeGrid g ! i ! j = g ! j ! i"
  using assms by (simp add: square_def transposeGrid_def)

lemma inRange_transposeGrid:
  assumes "square n g" "inRange n g"
  shows "inRange n (transposeGrid g)"
  unfolding inRange_def
proof (intro ballI)
  fix row v assume row: "row \<in> set (transposeGrid g)" and v: "v \<in> set row"
  from row obtain i where i: "i < n" "row = transposeGrid g ! i"
    using square_transposeGrid[OF assms(1)] by (auto simp: square_def in_set_conv_nth)
  have "length row = n" using row square_transposeGrid[OF assms(1)] by (simp add: square_def)
  with v obtain j where j: "j < n" "v = row ! j" by (auto simp: in_set_conv_nth)
  have "v = g ! j ! i" using i j transposeGrid_nth[OF assms(1) i(1) j(1)] by simp
  then show "0 \<le> v \<and> v \<le> int n" using cell_inRange[OF assms j(1) i(1)] by simp
qed

lemma rowCells_transposeGrid:
  assumes "square n g" "r < n"
  shows "rowCells (transposeGrid g) r = columnCells g r"
  using assms by (simp add: rowCells_def columnCells_def transposeGrid_def square_def)

lemma columnCells_transposeGrid:
  assumes "square n g" "c < n"
  shows "columnCells (transposeGrid g) c = rowCells g c"
proof (rule nth_equalityI)
  show "length (columnCells (transposeGrid g) c) = length (rowCells g c)"
    using assms by (simp add: rowCells_def columnCells_def transposeGrid_def square_def)
next
  fix j assume "j < length (columnCells (transposeGrid g) c)"
  then have j: "j < n" using assms by (simp add: columnCells_def transposeGrid_def square_def)
  then have "columnCells (transposeGrid g) c ! j = transposeGrid g ! j ! c"
    using assms square_transposeGrid[OF assms(1)] by (simp add: columnCells_def square_def)
  also have "\<dots> = g ! c ! j" by (rule transposeGrid_nth[OF assms(1) j assms(2)])
  finally show "columnCells (transposeGrid g) c ! j = rowCells g c ! j" by (simp add: rowCells_def)
qed

lemma mset_product_swap:
  assumes "distinct xs" "distinct ys"
  shows "mset (List.product ys xs) = image_mset prod.swap (mset (List.product xs ys))"
proof -
  have d1: "distinct (List.product ys xs)" using assms by (simp add: distinct_product)
  have "distinct (List.product xs ys)" using assms by (simp add: distinct_product)
  then have d2: "distinct (map prod.swap (List.product xs ys))"
    by (simp add: distinct_map inj_on_def)
  have "set (List.product ys xs) = set (map prod.swap (List.product xs ys))" by auto
  then have "mset (List.product ys xs) = mset (map prod.swap (List.product xs ys))"
    using d1 d2 by (simp only: set_eq_iff_mset_eq_distinct[symmetric])
  then show ?thesis by simp
qed

lemma blockCells_transposeGrid:
  assumes "square (X * Y) g" "i < X" "j < Y"
  shows "mset (blockCells (transposeGrid g) Y X i j) = mset (blockCells g X Y j i)"
proof -
  let ?F = "\<lambda>(a, b). g ! (j * X + b) ! (i * Y + a)"
  have bound: "i * Y + a < X * Y \<and> j * X + b < X * Y" if "a < Y" "b < X" for a b
  proof
    have "i * Y + a < Suc i * Y" using that by simp
    also have "\<dots> \<le> X * Y" using assms(2) by (intro mult_le_mono1) simp
    finally show "i * Y + a < X * Y" .
    have "j * X + b < Suc j * X" using that by simp
    also have "\<dots> \<le> Y * X" using assms(3) by (intro mult_le_mono1) simp
    finally show "j * X + b < X * Y" by (simp add: mult.commute)
  qed
  have "blockCells (transposeGrid g) Y X i j = map ?F (List.product [0..<Y] [0..<X])"
    unfolding blockCells_def
  proof (rule map_cong[OF refl])
    fix p assume "p \<in> set (List.product [0..<Y] [0..<X])"
    then obtain a b where p: "p = (a, b)" "a < Y" "b < X" by auto
    from bound[OF p(2,3)] transposeGrid_nth[OF assms(1)]
    show "(case p of (a, b) \<Rightarrow> transposeGrid g ! (i * Y + a) ! (j * X + b)) = ?F p"
      using p(1) by simp
  qed
  then have "mset (blockCells (transposeGrid g) Y X i j)
      = image_mset ?F (mset (List.product [0..<Y] [0..<X]))" by simp
  also have "\<dots> = image_mset ?F (image_mset prod.swap (mset (List.product [0..<X] [0..<Y])))"
    by (simp only: mset_product_swap[of "[0..<X]" "[0..<Y]", OF distinct_upt distinct_upt])
  also have "\<dots> = image_mset (\<lambda>p. g ! (j * X + fst p) ! (i * Y + snd p)) (mset (List.product [0..<X] [0..<Y]))"
    by (simp add: image_mset.compositionality comp_def case_prod_beta)
  also have "\<dots> = mset (blockCells g X Y j i)" by (simp add: blockCells_def split_def)
  finally show ?thesis .
qed

lemma specCost_transposeGrid:
  assumes "square (nat (X * Y)) g"
  shows "specCost (transposeGrid g) Y X = specCost g X Y"
proof -
  let ?n = "nat (X * Y)"
  have n: "nat (Y * X) = ?n" by (simp add: mult.commute)
  have rows: "(\<Sum>r < ?n. deviation ?n (rowCells (transposeGrid g) r))
      = (\<Sum>c < ?n. deviation ?n (columnCells g c))"
    by (rule sum.cong) (simp_all add: rowCells_transposeGrid[OF assms])
  have cols: "(\<Sum>c < ?n. deviation ?n (columnCells (transposeGrid g) c))
      = (\<Sum>r < ?n. deviation ?n (rowCells g r))"
    by (rule sum.cong) (simp_all add: columnCells_transposeGrid[OF assms])
  have blk: "deviation ?n (blockCells (transposeGrid g) (nat Y) (nat X) i j)
      = deviation ?n (blockCells g (nat X) (nat Y) j i)" if "i < nat X" "j < nat Y" for i j
  proof -
    from that have "0 < X" "0 < Y" by auto
    then have "?n = nat X * nat Y" by (simp add: nat_mult_distrib)
    with assms have "square (nat X * nat Y) g" by simp
    from blockCells_transposeGrid[OF this that] show ?thesis by (rule deviation_cong)
  qed
  have "(\<Sum>i < nat X. \<Sum>j < nat Y. deviation ?n (blockCells (transposeGrid g) (nat Y) (nat X) i j))
      = (\<Sum>i < nat X. \<Sum>j < nat Y. deviation ?n (blockCells g (nat X) (nat Y) j i))"
    by (intro sum.cong refl) (simp add: blk)
  also have "\<dots> = (\<Sum>j < nat Y. \<Sum>i < nat X. deviation ?n (blockCells g (nat X) (nat Y) j i))"
    by (rule sum.swap)
  finally show ?thesis
    by (simp add: specCost_def Let_def n rows cols)
qed

text \<open>
  Claim C9. Let both block dimensions be positive with a product \<open>n\<close> that a machine integer
  holds. On a square grid of side \<open>n\<close> with values from 0 to \<open>n\<close>, \<open>costFunction\<close> returns
  a cost, and it returns the same cost for the transposed grid with the two block dimensions
  exchanged.
\<close>

theorem costFunction_transposeGrid:
  assumes "0 < blockXDim" "0 < blockYDim" "blockXDim * blockYDim < 2 ^ 63"
    and "square (nat (blockXDim * blockYDim)) puzzle"
    and "inRange (nat (blockXDim * blockYDim)) puzzle"
  shows "\<exists>cost. costFunction puzzle blockXDim blockYDim = Done cost
           \<and> costFunction (transposeGrid puzzle) blockYDim blockXDim = Done cost"
proof -
  have n: "nat (blockYDim * blockXDim) = nat (blockXDim * blockYDim)" by (simp add: mult.commute)
  have small: "blockYDim * blockXDim < 2 ^ 63" using assms(3) by (simp add: mult.commute)
  have "costFunction (transposeGrid puzzle) blockYDim blockXDim
        = Done (specCost (transposeGrid puzzle) blockYDim blockXDim)"
    by (rule costFunction_specCost[OF assms(2,1) small])
       (simp_all only: n square_transposeGrid[OF assms(4)] inRange_transposeGrid[OF assms(4,5)])
  then show ?thesis
    by (simp only: specCost_transposeGrid[OF assms(4)] costFunction_specCost[OF assms]) simp
qed

theorem costFunction_transposeGrid_witness:
  "(0::int) < 2 \<and> (0::int) < 3 \<and> (2::int) * 3 < 2 ^ 63
   \<and> square (nat (2 * 3)) exampleSix \<and> inRange (nat (2 * 3)) exampleSix
   \<and> (\<exists>cost. costFunction exampleSix 2 3 = Done cost
        \<and> costFunction (transposeGrid exampleSix) 3 2 = Done cost)"
proof -
  have d: "(0::int) < 2" "(0::int) < 3" "(2::int) * 3 < 2 ^ 63" by simp_all
  have sq: "square (nat (2 * 3)) exampleSix" by (simp add: square_def exampleSix_def)
  have rg: "inRange (nat (2 * 3)) exampleSix" by (simp add: inRange_def exampleSix_def)
  from costFunction_transposeGrid [OF d sq rg] d sq rg show ?thesis by simp
qed

section \<open>The neighbour generator makes a new grid and keeps the clues\<close>

declare reassign.simps [simp del]

lemma bind_res_Done_iff: "bind_res m f = Done y \<longleftrightarrow> (\<exists>x. m = Done x \<and> f x = Done y)"
  by (cases m) auto

lemma peek_load2: "peek h g i j = load2 (rows h g) i j"
  by (simp add: peek_def load2_def load_def rows_def)

lemma rows_nth: "i < length g \<Longrightarrow> rows h g ! i = h ! (g ! i)"
  by (simp add: rows_def)

lemma length_rows: "length (rows h g) = length g"
  by (simp add: rows_def)

lemma rows_old:
  assumes "take (length h) h' = h" "alive h g"
  shows "rows h' g = rows h g"
proof -
  have "h' ! a = h ! a" if "a < length h" for a
  proof -
    have "take (length h) h' ! a = h' ! a" using that by simp
    then show ?thesis using assms(1) by simp
  qed
  then show ?thesis using assms(2) by (simp add: rows_def alive_def)
qed

lemma rows_update_row:
  assumes "distinct g" "i < length g" "alive h g"
  shows "rows (h[g ! i := r]) g = (rows h g)[i := r]"
proof (rule nth_equalityI)
  show "length (rows (h[g ! i := r]) g) = length ((rows h g)[i := r])" by (simp add: rows_def)
next
  fix k assume "k < length (rows (h[g ! i := r]) g)"
  then have k: "k < length g" by (simp add: rows_def)
  have a: "g ! i < length h" using assms(2,3) by (simp add: alive_def)
  show "rows (h[g ! i := r]) g ! k = (rows h g)[i := r] ! k"
  proof (cases "k = i")
    case True
    then show ?thesis using k a by (simp add: rows_def)
  next
    case False
    then have "g ! k \<noteq> g ! i" using assms(1,2) k by (simp add: nth_eq_iff_index_eq)
    then show ?thesis using k False by (simp add: rows_def)
  qed
qed

lemma poke_cell:
  assumes "alive h g" "distinct g" "square n (rows h g)" "i < n" "j < n"
  shows "poke h g i j v = Done (h[g ! i := (h ! (g ! i))[j := v]])"
    and "rows (h[g ! i := (h ! (g ! i))[j := v]]) g = (rows h g)[i := (rows h g ! i)[j := v]]"
    and "alive (h[g ! i := (h ! (g ! i))[j := v]]) g"
proof -
  have len: "length g = n" using assms(3) by (simp add: square_def rows_def)
  then have i: "i < length g" using assms(4) by simp
  have "rows h g ! i \<in> set (rows h g)" using i by (simp add: rows_def)
  then have "length (rows h g ! i) = n" using assms(3) by (simp add: square_def)
  then have row: "length (h ! (g ! i)) = n" using i by (simp add: rows_nth)
  show "poke h g i j v = Done (h[g ! i := (h ! (g ! i))[j := v]])"
    using i row assms(5) by (simp add: poke_def load_def store_def)
  show "rows (h[g ! i := (h ! (g ! i))[j := v]]) g = (rows h g)[i := (rows h g ! i)[j := v]]"
    using rows_update_row[OF assms(2) i assms(1)] i by (simp add: rows_nth)
  show "alive (h[g ! i := (h ! (g ! i))[j := v]]) g" using assms(1) by (simp add: alive_def)
qed

lemma copyPuzzle_fresh:
  assumes "alive h cur" "square n (rows h cur)"
  shows "\<exists>nb h1. copyPuzzle cur h = (nb, h1) \<and> nb = [length h ..< length h + n]
           \<and> length h1 = length h + n \<and> take (length h) h1 = h
           \<and> rows h1 nb = rows h cur"
proof -
  have len: "length cur = n" using assms(2) by (simp add: square_def rows_def)
  have rowlen: "length (h ! a) = n" if "a \<in> set cur" for a
  proof -
    from that have "h ! a \<in> set (rows h cur)" by (auto simp: rows_def)
    then show ?thesis using assms(2) by (simp add: square_def)
  qed
  let ?new = "map (\<lambda>a. take n (h ! a) @ replicate (n - length (h ! a)) 0) cur"
  have new: "?new = rows h cur"
    unfolding rows_def by (rule map_cong[OF refl]) (simp add: rowlen)
  have c: "copyPuzzle cur h = ([length h ..< length h + n], h @ ?new)"
    by (simp add: copyPuzzle_def Let_def len)
  have "rows (h @ ?new) [length h ..< length h + n] = ?new"
  proof (rule nth_equalityI)
    show "length (rows (h @ ?new) [length h ..< length h + n]) = length ?new"
      by (simp add: rows_def len)
  next
    fix k assume "k < length (rows (h @ ?new) [length h ..< length h + n])"
    then have k: "k < n" by (simp add: rows_def)
    then show "rows (h @ ?new) [length h ..< length h + n] ! k = ?new ! k"
      by (simp add: rows_def nth_append len)
  qed
  then have "rows (h @ ?new) [length h ..< length h + n] = rows h cur" using new by simp
  then show ?thesis using c by (simp add: len)
qed

lemma concat_nth_rows:
  assumes "\<forall>row \<in> set p. length row = n" "i < length p" "j < n"
  shows "concat p ! (i * n + j) = p ! i ! j"
  using assms
proof (induction p arbitrary: i)
  case Nil then show ?case by simp
next
  case (Cons row p)
  show ?case
  proof (cases i)
    case 0
    with Cons.prems show ?thesis by (simp add: nth_append)
  next
    case (Suc k)
    with Cons.prems have "concat p ! (k * n + j) = p ! k ! j" by (intro Cons.IH) simp_all
    with Suc Cons.prems show ?thesis by (simp add: nth_append)
  qed
qed

lemma concat_update_rows:
  assumes "\<forall>row \<in> set p. length row = n" "i < length p" "j < n"
  shows "concat (p[i := (p ! i)[j := v]]) = (concat p)[i * n + j := v]"
  using assms
proof (induction p arbitrary: i)
  case Nil then show ?case by simp
next
  case (Cons row p)
  show ?case
  proof (cases i)
    case 0
    with Cons.prems show ?thesis by (simp add: list_update_append)
  next
    case (Suc k)
    with Cons.prems have "concat (p[k := (p ! k)[j := v]]) = (concat p)[k * n + j := v]"
      by (intro Cons.IH) simp_all
    with Suc Cons.prems show ?thesis by (simp add: list_update_append)
  qed
qed

lemma length_concat_rows:
  assumes "\<forall>row \<in> set p. length row = n"
  shows "length (concat p) = length p * n"
  using assms by (induction p) simp_all

lemma flat_index_bound:
  fixes n :: nat
  assumes "i < m" "j < n"
  shows "i * n + j < m * n"
proof -
  have "i * n + j < Suc i * n" using assms by simp
  also have "\<dots> \<le> m * n" using assms by (intro mult_le_mono1) simp
  finally show ?thesis .
qed

lemma square_update:
  assumes "square n p" "i < n"
  shows "square n (p[i := (p ! i)[j := v]])"
  using assms by (auto simp: square_def dest!: set_update_subset_insert[THEN subsetD])

lemma update_cell_nth:
  assumes "square n p" "i < n" "j < n" "a < n" "b < n"
  shows "p[i := (p ! i)[j := v]] ! a ! b = (if a = i \<and> b = j then v else p ! a ! b)"
  using assms by (auto simp: square_def nth_list_update)

lemma swapped_grid:
  assumes "square n p" "x1 < n" "y1 < n" "x2 < n" "y2 < n"
  defines "p1 \<equiv> p[x1 := (p ! x1)[y1 := p ! x2 ! y2]]"
  defines "p2 \<equiv> p1[x2 := (p1 ! x2)[y2 := p ! x1 ! y1]]"
  shows "square n p1" "square n p2" "mset (concat p2) = mset (concat p)"
    and "\<forall>i < n. \<forall>j < n. (i, j) \<noteq> (x1, y1) \<longrightarrow> (i, j) \<noteq> (x2, y2) \<longrightarrow> p2 ! i ! j = p ! i ! j"
proof -
  let ?F = "concat p"
  let ?a = "x1 * n + y1" and ?b = "x2 * n + y2"
  show sq1: "square n p1" unfolding p1_def by (rule square_update[OF assms(1,2)])
  show sq2: "square n p2" unfolding p2_def by (rule square_update[OF sq1 assms(4)])
  have rows: "\<forall>row \<in> set p. length row = n" "length p = n"
    using assms(1) by (simp_all add: square_def)
  have rows1: "\<forall>row \<in> set p1. length row = n" "length p1 = n"
    using sq1 by (simp_all add: square_def)
  have ab: "?a < length ?F" "?b < length ?F"
    using flat_index_bound[OF assms(2,3)] flat_index_bound[OF assms(4,5)]
    by (simp_all add: length_concat_rows[OF rows(1)] rows(2))
  have f1: "concat p1 = ?F[?a := ?F ! ?b]"
    unfolding p1_def
    using concat_update_rows[OF rows(1), of x1 y1] concat_nth_rows[OF rows(1), of x2 y2] assms(2-5) rows(2)
    by simp
  have f2: "concat p2 = ?F[?a := ?F ! ?b, ?b := ?F ! ?a]"
    unfolding p2_def
    using concat_update_rows[OF rows1(1), of x2 y2] concat_nth_rows[OF rows(1), of x1 y1] assms(2-5)
      rows1(2) rows(2) f1 by simp
  show "mset (concat p2) = mset (concat p)" unfolding f2 by (rule mset_swap[OF ab(2) ab(1)])
  have frame: "p2 ! i ! j = p ! i ! j" if "i < n" "j < n" "(i, j) \<noteq> (x1, y1)" "(i, j) \<noteq> (x2, y2)" for i j
    using that update_cell_nth[OF sq1 assms(4,5) that(1,2)] update_cell_nth[OF assms(1,2,3) that(1,2)]
    unfolding p1_def p2_def by auto
  then show "\<forall>i < n. \<forall>j < n. (i, j) \<noteq> (x1, y1) \<longrightarrow> (i, j) \<noteq> (x2, y2) \<longrightarrow> p2 ! i ! j = p ! i ! j"
    by blast
qed

lemma swapCells_store:
  assumes "alive h nb" "distinct nb" "square n (rows h nb)"
    and "x1 < n" "y1 < n" "x2 < n" "y2 < n"
  shows "\<exists>h'. swapCells h nb x1 y1 x2 y2 = Done h' \<and> length h' = length h \<and> alive h' nb
           \<and> (\<forall>a. a \<notin> set nb \<longrightarrow> h' ! a = h ! a)
           \<and> square n (rows h' nb)
           \<and> mset (concat (rows h' nb)) = mset (concat (rows h nb))
           \<and> (\<forall>i < n. \<forall>j < n. (i, j) \<noteq> (x1, y1) \<longrightarrow> (i, j) \<noteq> (x2, y2)
                 \<longrightarrow> rows h' nb ! i ! j = rows h nb ! i ! j)"
proof -
  let ?p = "rows h nb"
  let ?h1 = "h[nb ! x1 := (h ! (nb ! x1))[y1 := ?p ! x2 ! y2]]"
  let ?h2 = "?h1[nb ! x2 := (?h1 ! (nb ! x2))[y2 := ?p ! x1 ! y1]]"
  let ?p1 = "?p[x1 := (?p ! x1)[y1 := ?p ! x2 ! y2]]"
  let ?p2 = "?p1[x2 := (?p1 ! x2)[y2 := ?p ! x1 ! y1]]"
  have len: "length nb = n" using assms(3) by (simp add: square_def rows_def)
  note g = swapped_grid[OF assms(3-7)]
  note k1 = poke_cell[OF assms(1,2,3,4,5), of "?p ! x2 ! y2"]
  have sq1: "square n (rows ?h1 nb)" using g(1) k1(2) by simp
  note k2 = poke_cell[OF k1(3) assms(2) sq1 assms(6,7), of "?p ! x1 ! y1"]
  have r2: "rows ?h2 nb = ?p2" using k2(2) k1(2) by simp
  have run: "swapCells h nb x1 y1 x2 y2 = Done ?h2"
    by (simp add: swapCells_def peek_load2 load2_cell[OF assms(3)] assms(4-7) k1(1) k2(1))
  have mem: "nb ! x1 \<in> set nb" "nb ! x2 \<in> set nb" using assms(4,6) len by simp_all
  have frame: "\<forall>a. a \<notin> set nb \<longrightarrow> ?h2 ! a = h ! a"
  proof (intro allI impI)
    fix a assume "a \<notin> set nb"
    then have "a \<noteq> nb ! x1" "a \<noteq> nb ! x2" using mem by auto
    then show "?h2 ! a = h ! a" by simp
  qed
  have "length ?h2 = length h" by simp
  moreover have "alive ?h2 nb" by (rule k2(3))
  moreover have "square n (rows ?h2 nb)" using g(2) r2 by simp
  moreover have "mset (concat (rows ?h2 nb)) = mset (concat ?p)" using g(3) r2 by simp
  moreover have "\<forall>i < n. \<forall>j < n. (i, j) \<noteq> (x1, y1) \<longrightarrow> (i, j) \<noteq> (x2, y2)
                 \<longrightarrow> rows ?h2 nb ! i ! j = ?p ! i ! j" using g(4) r2 by simp
  ultimately show ?thesis using run frame by blast
qed

lemma blankDraws_Cons2:
  "blankDraws C (a # b # rs)
   = (if C ! (a mod length C) ! (b mod length C) \<le> 0 then 1 else 0) + blankDraws C rs"
  by (simp add: blankDraws_def)

lemma blankDraws_short: "blankDraws C [] = 0" "blankDraws C [a] = 0"
  by (simp_all add: blankDraws_def)

lemma reassign_step:
  assumes "square n (rows h orig)" "x < n" "y < n"
  shows "0 < rows h orig ! x ! y \<Longrightarrow>
           reassign h orig n x y (a # b # rs) = reassign h orig n (a mod n) (b mod n) rs"
    and "0 < rows h orig ! x ! y \<Longrightarrow> reassign h orig n x y [a] = Starved"
    and "0 < rows h orig ! x ! y \<Longrightarrow> reassign h orig n x y [] = Starved"
    and "rows h orig ! x ! y \<le> 0 \<Longrightarrow> reassign h orig n x y rs = Done (x, y, rs)"
proof -
  have n: "0 < n" using assms(2) by simp
  note ld = load2_cell[OF assms]
  show "0 < rows h orig ! x ! y \<Longrightarrow>
           reassign h orig n x y (a # b # rs) = reassign h orig n (a mod n) (b mod n) rs"
    by (subst reassign.simps) (use n in \<open>simp add: peek_load2 ld Intn_def\<close>)
  show "0 < rows h orig ! x ! y \<Longrightarrow> reassign h orig n x y [a] = Starved"
    by (subst reassign.simps) (use n in \<open>simp add: peek_load2 ld Intn_def\<close>)
  show "0 < rows h orig ! x ! y \<Longrightarrow> reassign h orig n x y [] = Starved"
    by (subst reassign.simps) (use n in \<open>simp add: peek_load2 ld Intn_def\<close>)
  show "rows h orig ! x ! y \<le> 0 \<Longrightarrow> reassign h orig n x y rs = Done (x, y, rs)"
    by (subst reassign.simps) (simp add: peek_load2 ld)
qed

lemma reassign_draws:
  assumes "square n (rows h orig)" "x < n" "y < n"
  shows "if (if 0 < rows h orig ! x ! y then 1 else 0) \<le> blankDraws (rows h orig) rs
         then \<exists>x' y' rs'. reassign h orig n x y rs = Done (x', y', rs')
                \<and> x' < n \<and> y' < n \<and> rows h orig ! x' ! y' \<le> 0
                \<and> blankDraws (rows h orig) rs' + (if 0 < rows h orig ! x ! y then 1 else 0)
                    = blankDraws (rows h orig) rs
         else reassign h orig n x y rs = Starved"
  using assms(2,3)
proof (induction rs arbitrary: x y rule: pairs.induct)
  case (1 a b rs)
  let ?C = "rows h orig"
  have len: "length ?C = n" using assms(1) by (simp add: square_def)
  have n: "0 < n" using "1.prems" by simp
  show ?case
  proof (cases "0 < ?C ! x ! y")
    case False
    then show ?thesis using reassign_step(4)[OF assms(1) "1.prems", of "a # b # rs"] "1.prems"
      by simp
  next
    case True
    have lt: "a mod n < n" "b mod n < n" using n by simp_all
    note st = reassign_step(1)[OF assms(1) "1.prems" True, of a b rs]
    note IH = "1.IH"[OF lt]
    show ?thesis
    proof (cases "0 < ?C ! (a mod n) ! (b mod n)")
      case clue: True
      with IH True show ?thesis by (auto simp: st blankDraws_Cons2 len split: if_splits)
    next
      case blank: False
      with IH True show ?thesis by (auto simp: st blankDraws_Cons2 len split: if_splits)
    qed
  qed
next
  case (2 a)
  show ?case
  proof (cases "0 < rows h orig ! x ! y")
    case False
    then show ?thesis using reassign_step(4)[OF assms(1) "2.prems", of "[a]"] "2.prems" by simp
  next
    case True
    then show ?thesis using reassign_step(2)[OF assms(1) "2.prems" True] by (simp add: blankDraws_short)
  qed
next
  case 3
  show ?case
  proof (cases "0 < rows h orig ! x ! y")
    case False
    then show ?thesis using reassign_step(4)[OF assms(1) "3.prems", of "[]"] "3.prems" by simp
  next
    case True
    then show ?thesis using reassign_step(3)[OF assms(1) "3.prems" True] by (simp add: blankDraws_short)
  qed
qed

lemma swapOnce_short:
  assumes "0 < n" "length rs < 4"
  shows "swapOnce orig n nb (hi, rs) = Starved" "blankDraws C rs < 2"
proof -
  from assms(2) consider "rs = []" | a where "rs = [a]" | a b where "rs = [a, b]"
    | a b c where "rs = [a, b, c]"
    by (cases rs; simp; rename_tac a as; case_tac as; simp; rename_tac b bs; case_tac bs; simp;
        rename_tac c cs; case_tac cs; simp)
  then show "swapOnce orig n nb (hi, rs) = Starved"
    using assms(1) by cases (simp_all add: swapOnce_def Intn_def)
  from assms(2) consider "rs = []" | a where "rs = [a]" | a b where "rs = [a, b]"
    | a b c where "rs = [a, b, c]"
    by (cases rs; simp; rename_tac a as; case_tac as; simp; rename_tac b bs; case_tac bs; simp;
        rename_tac c cs; case_tac cs; simp)
  then show "blankDraws C rs < 2" by cases (simp_all add: blankDraws_def)
qed

lemma swapOnce_four:
  assumes "0 < n"
  shows "swapOnce orig n nb (hi, a # b # c # d # rs) =
     bind_res (reassign hi orig n (a mod n) (b mod n) rs) (\<lambda>(x1, y1, rs).
     bind_res (reassign hi orig n (c mod n) (d mod n) rs) (\<lambda>(x2, y2, rs).
     bind_res (swapCells hi nb x1 y1 x2 y2) (\<lambda>h. Done (h, rs))))"
  using assms by (simp add: swapOnce_def Intn_def)

lemma take_frame:
  assumes "length h' = length hi" "\<forall>a. a \<notin> set nb \<longrightarrow> h' ! a = hi ! a" "\<forall>a \<in> set nb. L \<le> a"
  shows "take L h' = take L hi"
proof (rule nth_equalityI)
  show "length (take L h') = length (take L hi)" using assms(1) by simp
next
  fix a assume "a < length (take L h')"
  then have a: "a < L" "a < length h'" by simp_all
  then have "a \<notin> set nb" using assms(3) by auto
  then show "take L h' ! a = take L hi ! a" using a assms(1,2) by simp
qed

lemma swapOnce_draws:
  assumes "square n (rows h orig)" "alive h orig" "0 < n"
    and "nb = [length h ..< length h + n]" "swapInv n h orig cur nb hi"
  shows "if 2 \<le> blankDraws (rows h orig) rs
         then \<exists>h' rs'. swapOnce orig n nb (hi, rs) = Done (h', rs') \<and> swapInv n h orig cur nb h'
                \<and> blankDraws (rows h orig) rs' + 2 = blankDraws (rows h orig) rs
         else swapOnce orig n nb (hi, rs) = Starved"
proof (cases "length rs < 4")
  case True
  from swapOnce_short(1)[OF assms(3) True, of orig nb hi]
    swapOnce_short(2)[OF assms(3) True, where C = "rows h orig"]
  show ?thesis by (simp add: not_le)
next
  case False
  then obtain a b c d rs4 where rs: "rs = a # b # c # d # rs4"
    by (cases rs; simp; rename_tac a as; case_tac as; simp; rename_tac b bs; case_tac bs; simp;
        rename_tac c cs; case_tac cs; simp)
  let ?C = "rows h orig"
  from assms(5) have inv: "length hi = length h + n" "take (length h) hi = h" "alive hi nb"
    "square n (rows hi nb)" "mset (concat (rows hi nb)) = mset (concat (rows h cur))"
    "\<And>i j. i < n \<Longrightarrow> j < n \<Longrightarrow> 0 < ?C ! i ! j \<Longrightarrow> rows hi nb ! i ! j = rows h cur ! i ! j"
    by (simp_all add: swapInv_def neighbourInv_def)
  have C: "rows hi orig = ?C" by (rule rows_old[OF inv(2) assms(2)])
  have sq: "square n (rows hi orig)" using assms(1) C by simp
  have len: "length ?C = n" using assms(1) by (simp add: square_def)
  have dist: "distinct nb" and fresh: "\<forall>a \<in> set nb. length h \<le> a" using assms(4) by simp_all
  have lt: "a mod n < n" "b mod n < n" "c mod n < n" "d mod n < n" using assms(3) by simp_all
  let ?c1 = "if 0 < ?C ! (a mod n) ! (b mod n) then 1 else 0 :: nat"
  let ?c2 = "if 0 < ?C ! (c mod n) ! (d mod n) then 1 else 0 :: nat"
  have bd: "blankDraws ?C rs + ?c1 + ?c2 = 2 + blankDraws ?C rs4"
    by (simp add: rs blankDraws_Cons2 len)
  note four = swapOnce_four[OF assms(3), of orig nb hi a b c d rs4]
  note R1 = reassign_draws[OF sq lt(1,2), of rs4, unfolded C]
  show ?thesis
  proof (cases "?c1 \<le> blankDraws ?C rs4")
    case False
    then have "reassign hi orig n (a mod n) (b mod n) rs4 = Starved" using R1 by simp
    then have "swapOnce orig n nb (hi, rs) = Starved" by (simp add: rs four)
    moreover have "\<not> 2 \<le> blankDraws ?C rs" using bd False by (simp split: if_splits)
    ultimately show ?thesis by simp
  next
    case True
    with R1 obtain x1 y1 rs5 where r1: "reassign hi orig n (a mod n) (b mod n) rs4 = Done (x1, y1, rs5)"
      and c1: "x1 < n" "y1 < n" "?C ! x1 ! y1 \<le> 0"
      and b1: "blankDraws ?C rs5 + ?c1 = blankDraws ?C rs4" by auto
    note R2 = reassign_draws[OF sq lt(3,4), of rs5, unfolded C]
    show ?thesis
    proof (cases "?c2 \<le> blankDraws ?C rs5")
      case False
      then have "reassign hi orig n (c mod n) (d mod n) rs5 = Starved" using R2 by simp
      then have "swapOnce orig n nb (hi, rs) = Starved" by (simp add: rs four r1)
      moreover have "\<not> 2 \<le> blankDraws ?C rs" using bd b1 False by (simp split: if_splits)
      ultimately show ?thesis by simp
    next
      case True
      with R2 obtain x2 y2 rs6 where r2: "reassign hi orig n (c mod n) (d mod n) rs5 = Done (x2, y2, rs6)"
        and c2: "x2 < n" "y2 < n" "?C ! x2 ! y2 \<le> 0"
        and b2: "blankDraws ?C rs6 + ?c2 = blankDraws ?C rs5" by auto
      from swapCells_store[OF inv(3) dist inv(4) c1(1,2) c2(1,2)] obtain h' where
        h': "swapCells hi nb x1 y1 x2 y2 = Done h'" "length h' = length hi" "alive h' nb"
        "\<forall>a. a \<notin> set nb \<longrightarrow> h' ! a = hi ! a" "square n (rows h' nb)"
        "mset (concat (rows h' nb)) = mset (concat (rows hi nb))"
        "\<forall>i < n. \<forall>j < n. (i, j) \<noteq> (x1, y1) \<longrightarrow> (i, j) \<noteq> (x2, y2)
                 \<longrightarrow> rows h' nb ! i ! j = rows hi nb ! i ! j"
        by blast
      have run: "swapOnce orig n nb (hi, rs) = Done (h', rs6)"
        by (simp add: rs four r1 r2 h'(1))
      have tk: "take (length h) h' = h"
        using take_frame[OF h'(2) h'(4) fresh] inv(2) by simp
      have keep: "rows h' nb ! i ! j = rows h cur ! i ! j" if "i < n" "j < n" "0 < ?C ! i ! j" for i j
      proof -
        have "(i, j) \<noteq> (x1, y1)" "(i, j) \<noteq> (x2, y2)" using that(3) c1(3) c2(3) by auto
        with h'(7) that(1,2) have "rows h' nb ! i ! j = rows hi nb ! i ! j" by blast
        with inv(6)[OF that] show ?thesis by simp
      qed
      have "swapInv n h orig cur nb h'"
        using h'(2,3,5,6) inv(1,5) tk keep by (simp add: swapInv_def neighbourInv_def)
      moreover have "blankDraws ?C rs6 + 2 = blankDraws ?C rs" using bd b1 b2 by simp
      ultimately show ?thesis using run by simp
    qed
  qed
qed

lemma swap_loop:
  assumes "square n (rows h orig)" "alive h orig" "0 < n"
    and "nb = [length h ..< length h + n]" "swapInv n h orig cur nb hi"
  shows "if 2 * length xs \<le> blankDraws (rows h orig) rs
         then \<exists>h' rs'. for_each xs (\<lambda>i. swapOnce orig n nb) (hi, rs) = Done (h', rs')
                \<and> swapInv n h orig cur nb h'
                \<and> blankDraws (rows h orig) rs' + 2 * length xs = blankDraws (rows h orig) rs
         else for_each xs (\<lambda>i. swapOnce orig n nb) (hi, rs) = Starved"
  using assms(5)
proof (induction xs arbitrary: hi rs)
  case Nil
  then show ?case by simp
next
  case (Cons x xs)
  note S = swapOnce_draws[OF assms(1-4) Cons.prems, of rs]
  show ?case
  proof (cases "2 \<le> blankDraws (rows h orig) rs")
    case False
    with S show ?thesis by simp
  next
    case True
    with S obtain h1 rs1 where s1: "swapOnce orig n nb (hi, rs) = Done (h1, rs1)"
      "swapInv n h orig cur nb h1" "blankDraws (rows h orig) rs1 + 2 = blankDraws (rows h orig) rs"
      by auto
    note IH = Cons.IH[OF s1(2), of rs1]
    show ?thesis
    proof (cases "2 * length xs \<le> blankDraws (rows h orig) rs1")
      case False
      with IH s1 show ?thesis by simp
    next
      case True
      with IH obtain h' rs' where "for_each xs (\<lambda>i. swapOnce orig n nb) (h1, rs1) = Done (h', rs')"
        "swapInv n h orig cur nb h'"
        "blankDraws (rows h orig) rs' + 2 * length xs = blankDraws (rows h orig) rs1" by auto
      with s1 True show ?thesis by simp
    qed
  qed
qed

lemma getNeighbour_draws:
  assumes "alive h orig" "alive h cur" "square n (rows h orig)" "square n (rows h cur)" "0 < n"
  shows "if 2 * nat k \<le> blankDraws (rows h orig) rs
         then \<exists>h' rs'. getNeighbour cur k orig (h, rs) = Done ([length h ..< length h + n], h', rs')
                \<and> swapInv n h orig cur [length h ..< length h + n] h'
                \<and> blankDraws (rows h orig) rs' + 2 * nat k = blankDraws (rows h orig) rs
         else getNeighbour cur k orig (h, rs) = Starved"
proof -
  let ?nb = "[length h ..< length h + n]"
  have len: "length orig = n" using assms(3) by (simp add: square_def rows_def)
  from copyPuzzle_fresh[OF assms(2,4)] obtain h1 where
    c: "copyPuzzle cur h = (?nb, h1)" "length h1 = length h + n" "take (length h) h1 = h"
       "rows h1 ?nb = rows h cur" by auto
  have "alive h1 ?nb" using c(2) by (simp add: alive_def)
  then have inv: "swapInv n h orig cur ?nb h1"
    using c(2,3,4) assms(4) by (simp add: swapInv_def neighbourInv_def)
  have g: "getNeighbour cur k orig (h, rs)
      = bind_res (for_each [0..<nat k] (\<lambda>i. swapOnce orig n ?nb) (h1, rs))
          (\<lambda>(h, rs). Done (?nb, h, rs))"
    by (simp add: getNeighbour_def len c(1))
  from swap_loop[OF assms(3,1,5) refl inv, of "[0..<nat k]" rs]
  show ?thesis unfolding g by (auto split: if_splits)
qed

lemma pairs_append_even: "even (length xs) \<Longrightarrow> pairs (xs @ ys) = pairs xs @ pairs ys"
  by (induction xs rule: pairs.induct) simp_all

lemma blankDraws_append:
  "even (length xs) \<Longrightarrow> blankDraws C (xs @ ys) = blankDraws C xs + blankDraws C ys"
  by (simp add: blankDraws_def pairs_append_even)

lemma blankDraws_replicate:
  assumes "bx < length C" "by < length C" "C ! bx ! by \<le> 0"
  shows "blankDraws C (concat (replicate m [bx, by])) = m"
  using assms by (induction m) (simp_all add: blankDraws_short blankDraws_Cons2)

lemma blankDraws_continue:
  assumes "bx < length C" "by < length C" "C ! bx ! by \<le> 0"
  shows "\<exists>ext. length ext \<le> 2 * m + 1 \<and> m \<le> blankDraws C (rs @ ext)"
proof (cases "even (length rs)")
  case True
  let ?ext = "concat (replicate m [bx, by])"
  have "length ?ext = 2 * m" by (induction m) simp_all
  moreover have "m \<le> blankDraws C (rs @ ?ext)"
    by (simp add: blankDraws_append[OF True] blankDraws_replicate[OF assms])
  ultimately show ?thesis by (intro exI[of _ ?ext]) simp
next
  case False
  let ?e = "concat (replicate m [bx, by])"
  have l: "length ?e = 2 * m" by (induction m) simp_all
  have ev: "even (length (rs @ [by]))" using False by simp
  have "blankDraws C (rs @ by # ?e) = blankDraws C ((rs @ [by]) @ ?e)" by simp
  also have "\<dots> = blankDraws C (rs @ [by]) + m"
    by (simp only: blankDraws_append[OF ev] blankDraws_replicate[OF assms])
  finally have "m \<le> blankDraws C (rs @ by # ?e)" by simp
  moreover have "length (by # ?e) \<le> 2 * m + 1" using l by simp
  ultimately show ?thesis by (intro exI[of _ "by # ?e"]) simp
qed

text \<open>
  Claim C2. Let the clue grid and the candidate grid be grids of the store, square of the
  same side, and let the clue grid have a blank cell. \<open>getNeighbour\<close> returns exactly when
  the random source delivers, for each of its swaps, two pairs of coordinates of blank cells;
  until then it keeps drawing, and it never panics. Whatever the source has delivered, at
  most \<open>4 * swapCount + 1\<close> further values make it return. The grid it returns is made of
  new rows, is square of the same side and agrees with the candidate grid at every clue
  position; every array that was in the store before the call, so every row of the
  candidate grid and of the clue grid, is unchanged.
\<close>

theorem getNeighbour_fresh_copy:
  assumes "alive h originalPuzzle" "alive h currentPuzzle"
    and "square n (rows h originalPuzzle)" "square n (rows h currentPuzzle)"
    and "bx < n" "by < n" "rows h originalPuzzle ! bx ! by \<le> 0"
  shows "(if 2 * nat swapCount \<le> blankDraws (rows h originalPuzzle) rs
          then \<exists>neighbourPuzzle h' rs'.
                 getNeighbour currentPuzzle swapCount originalPuzzle (h, rs)
                   = Done (neighbourPuzzle, h', rs')
               \<and> take (length h) h' = h
               \<and> (\<forall>a \<in> set neighbourPuzzle. length h \<le> a \<and> a < length h')
               \<and> rows h' currentPuzzle = rows h currentPuzzle
               \<and> square n (rows h' neighbourPuzzle)
               \<and> (\<forall>i < n. \<forall>j < n. 0 < rows h originalPuzzle ! i ! j
                     \<longrightarrow> rows h' neighbourPuzzle ! i ! j = rows h currentPuzzle ! i ! j)
          else getNeighbour currentPuzzle swapCount originalPuzzle (h, rs) = Starved)
       \<and> (\<exists>ext. length ext \<le> 4 * nat swapCount + 1
              \<and> 2 * nat swapCount \<le> blankDraws (rows h originalPuzzle) (rs @ ext))"
proof
  have n: "0 < n" using assms(5) by simp
  note G = getNeighbour_draws[OF assms(1-4) n, of swapCount rs]
  show "if 2 * nat swapCount \<le> blankDraws (rows h originalPuzzle) rs
          then \<exists>neighbourPuzzle h' rs'.
                 getNeighbour currentPuzzle swapCount originalPuzzle (h, rs)
                   = Done (neighbourPuzzle, h', rs')
               \<and> take (length h) h' = h
               \<and> (\<forall>a \<in> set neighbourPuzzle. length h \<le> a \<and> a < length h')
               \<and> rows h' currentPuzzle = rows h currentPuzzle
               \<and> square n (rows h' neighbourPuzzle)
               \<and> (\<forall>i < n. \<forall>j < n. 0 < rows h originalPuzzle ! i ! j
                     \<longrightarrow> rows h' neighbourPuzzle ! i ! j = rows h currentPuzzle ! i ! j)
          else getNeighbour currentPuzzle swapCount originalPuzzle (h, rs) = Starved"
  proof (cases "2 * nat swapCount \<le> blankDraws (rows h originalPuzzle) rs")
    case False
    with G show ?thesis by simp
  next
    case True
    let ?nb = "[length h ..< length h + n]"
    from G True obtain h' rs' where
      run: "getNeighbour currentPuzzle swapCount originalPuzzle (h, rs) = Done (?nb, h', rs')"
      and inv: "swapInv n h originalPuzzle currentPuzzle ?nb h'" by auto
    from inv have i: "length h' = length h + n" "take (length h) h' = h"
      "square n (rows h' ?nb)"
      "\<forall>i < n. \<forall>j < n. 0 < rows h originalPuzzle ! i ! j
          \<longrightarrow> rows h' ?nb ! i ! j = rows h currentPuzzle ! i ! j"
      by (simp_all add: swapInv_def neighbourInv_def)
    have fresh: "\<forall>a \<in> set ?nb. length h \<le> a \<and> a < length h'" using i(1) by simp
    have old: "rows h' currentPuzzle = rows h currentPuzzle" by (rule rows_old[OF i(2) assms(2)])
    from run i(2) fresh old i(3,4) True show ?thesis by (simp only: if_True) blast
  qed
next
  have len: "length (rows h originalPuzzle) = n" using assms(3) by (simp add: square_def)
  from blankDraws_continue[of bx "rows h originalPuzzle" "by" "2 * nat swapCount" rs] assms(5-7) len
  show "\<exists>ext. length ext \<le> 4 * nat swapCount + 1
              \<and> 2 * nat swapCount \<le> blankDraws (rows h originalPuzzle) (rs @ ext)"
    by simp
qed

theorem getNeighbour_fresh_copy_witness:
  "alive exampleStore [0, 1, 2, 3] \<and> alive exampleStore [4, 5, 6, 7]
   \<and> square 4 (rows exampleStore [0, 1, 2, 3]) \<and> square 4 (rows exampleStore [4, 5, 6, 7])
   \<and> (0::nat) < 4 \<and> (1::nat) < 4 \<and> rows exampleStore [0, 1, 2, 3] ! 0 ! 1 \<le> 0
   \<and> 2 * nat 1 \<le> blankDraws (rows exampleStore [0, 1, 2, 3]) [0, 0, 0, 1, 1, 2, 7, 7]
   \<and> getNeighbour [4, 5, 6, 7] 1 [0, 1, 2, 3] (exampleStore, [0, 0, 0, 1, 1, 2, 7, 7])
       = Done ([8, 9, 10, 11],
               exampleStore @ [[1, 1, 3, 4], [3, 4, 2, 2], [2, 1, 4, 3], [4, 3, 2, 1]], [7, 7])
   \<and> (\<exists>neighbourPuzzle h' rs'.
          getNeighbour [4, 5, 6, 7] 1 [0, 1, 2, 3] (exampleStore, [0, 0, 0, 1, 1, 2, 7, 7])
            = Done (neighbourPuzzle, h', rs')
        \<and> take (length exampleStore) h' = exampleStore
        \<and> (\<forall>a \<in> set neighbourPuzzle. length exampleStore \<le> a \<and> a < length h')
        \<and> rows h' [4, 5, 6, 7] = rows exampleStore [4, 5, 6, 7]
        \<and> square 4 (rows h' neighbourPuzzle)
        \<and> (\<forall>i < 4. \<forall>j < 4. 0 < rows exampleStore [0, 1, 2, 3] ! i ! j
              \<longrightarrow> rows h' neighbourPuzzle ! i ! j = rows exampleStore [4, 5, 6, 7] ! i ! j))
   \<and> (\<exists>ext. length ext \<le> 4 * nat 1 + 1
          \<and> 2 * nat 1 \<le> blankDraws (rows exampleStore [0, 1, 2, 3])
                            ([0, 0, 0, 1, 1, 2, 7, 7] @ ext))"
proof -
  have h: "alive exampleStore [0, 1, 2, 3]" "alive exampleStore [4, 5, 6, 7]"
    "square 4 (rows exampleStore [0, 1, 2, 3])" "square 4 (rows exampleStore [4, 5, 6, 7])"
    "(0::nat) < 4" "(1::nat) < 4" "rows exampleStore [0, 1, 2, 3] ! 0 ! 1 \<le> 0"
    by (simp_all add: alive_def square_def rows_def exampleStore_def exampleClues_def
        exampleSolved_def)
  have bd: "2 * nat 1 \<le> blankDraws (rows exampleStore [0, 1, 2, 3]) [0, 0, 0, 1, 1, 2, 7, 7]"
    by code_simp
  have run: "getNeighbour [4, 5, 6, 7] 1 [0, 1, 2, 3] (exampleStore, [0, 0, 0, 1, 1, 2, 7, 7])
       = Done ([8, 9, 10, 11],
               exampleStore @ [[1, 1, 3, 4], [3, 4, 2, 2], [2, 1, 4, 3], [4, 3, 2, 1]], [7, 7])"
    by code_simp
  from getNeighbour_fresh_copy [OF h, of 1 "[0, 0, 0, 1, 1, 2, 7, 7]"] bd
  have c: "(\<exists>neighbourPuzzle h' rs'.
          getNeighbour [4, 5, 6, 7] 1 [0, 1, 2, 3] (exampleStore, [0, 0, 0, 1, 1, 2, 7, 7])
            = Done (neighbourPuzzle, h', rs')
        \<and> take (length exampleStore) h' = exampleStore
        \<and> (\<forall>a \<in> set neighbourPuzzle. length exampleStore \<le> a \<and> a < length h')
        \<and> rows h' [4, 5, 6, 7] = rows exampleStore [4, 5, 6, 7]
        \<and> square 4 (rows h' neighbourPuzzle)
        \<and> (\<forall>i < 4. \<forall>j < 4. 0 < rows exampleStore [0, 1, 2, 3] ! i ! j
              \<longrightarrow> rows h' neighbourPuzzle ! i ! j = rows exampleStore [4, 5, 6, 7] ! i ! j))
   \<and> (\<exists>ext. length ext \<le> 4 * nat 1 + 1
          \<and> 2 * nat 1 \<le> blankDraws (rows exampleStore [0, 1, 2, 3])
                            ([0, 0, 0, 1, 1, 2, 7, 7] @ ext))"
    by (simp only: if_True)
  from h bd run c show ?thesis by (intro conjI) (rule h bd run conjunct1[OF c] conjunct2[OF c])+
qed

section \<open>The random initializer fills the grid with the right counts\<close>

lemma store2_cell:
  assumes "square n p" "i < n" "j < n"
  shows "store2 p i j v = Done (p[i := (p ! i)[j := v]])"
  using assms by (simp add: store2_def load_def store_def square_def)

lemma countDown_snoc:
  "countDown m (vs @ [v]) = (if 0 < v then (countDown m vs)(v \<mapsto> lookup (countDown m vs) v - 1)
                             else countDown m vs)"
  by (simp add: countDown_def)

lemma countDown_Nil: "countDown m [] = m"
  by (simp add: countDown_def)

lemma countDown_append: "countDown m (vs @ ws) = countDown (countDown m vs) ws"
  by (simp add: countDown_def)

lemma scanCell_loop:
  assumes "square n orig" "i < n" "length p0 = n"
  shows "for_each [0..<n] (scanCell orig i) (m0, es0, p0[i := replicate n 0])
         = Done (countDown m0 (orig ! i),
                 es0 @ map (Pair i) (filter (\<lambda>j. \<not> 0 < orig ! i ! j) [0..<n]),
                 p0[i := map (\<lambda>v. if 0 < v then v else 0) (orig ! i)])"
proof -
  let ?P = "\<lambda>pre (m, es, p).
      m = countDown m0 (map (\<lambda>j. orig ! i ! j) pre)
    \<and> es = es0 @ map (Pair i) (filter (\<lambda>j. \<not> 0 < orig ! i ! j) pre)
    \<and> length p = n \<and> length (p ! i) = n \<and> (\<forall>r. r \<noteq> i \<longrightarrow> p ! r = p0 ! r)
    \<and> (\<forall>j < n. p ! i ! j = (if j \<in> set pre \<and> 0 < orig ! i ! j then orig ! i ! j else 0))"
  have "\<exists>s'. for_each [0..<n] (scanCell orig i) (m0, es0, p0[i := replicate n 0]) = Done s'
             \<and> ?P [0..<n] s'"
  proof (rule for_each_prefix[where P = ?P])
    show "?P [] (m0, es0, p0[i := replicate n 0])"
      using assms by (simp add: countDown_Nil)
  next
    fix pre x s assume "x \<in> set [0..<n]" and P: "?P pre s"
    then have x: "x < n" by simp
    obtain m es p where s: "s = (m, es, p)" by (cases s)
    note ld = load2_cell[OF assms(1,2) x]
    from P s have inv: "m = countDown m0 (map (\<lambda>j. orig ! i ! j) pre)"
      "es = es0 @ map (Pair i) (filter (\<lambda>j. \<not> 0 < orig ! i ! j) pre)"
      "length p = n" "length (p ! i) = n" "\<forall>r. r \<noteq> i \<longrightarrow> p ! r = p0 ! r"
      "\<forall>j < n. p ! i ! j = (if j \<in> set pre \<and> 0 < orig ! i ! j then orig ! i ! j else 0)"
      by simp_all
    show "\<exists>s'. scanCell orig i x s = Done s' \<and> ?P (pre @ [x]) s'"
    proof (cases "0 < orig ! i ! x")
      case True
      have st: "store2 p i x (orig ! i ! x) = Done (p[i := (p ! i)[x := orig ! i ! x]])"
        using inv(3,4) assms(2) x by (simp add: store2_def load_def store_def)
      show ?thesis
        using True inv assms(2) x
        by (simp add: s scanCell_def ld st countDown_snoc nth_list_update)
    next
      case False
      show ?thesis
        using False inv by (simp add: s scanCell_def ld countDown_snoc)
    qed
  qed
  then obtain m es p where run: "for_each [0..<n] (scanCell orig i) (m0, es0, p0[i := replicate n 0]) = Done (m, es, p)"
    and fin: "?P [0..<n] (m, es, p)" by auto
  have row: "map (\<lambda>j. orig ! i ! j) [0..<n] = orig ! i"
  proof -
    have "length (orig ! i) = n" using assms by (simp add: square_def)
    then show ?thesis using map_nth[of "orig ! i"] by simp
  qed
  have "p = p0[i := map (\<lambda>v. if 0 < v then v else 0) (orig ! i)]"
  proof (rule nth_equalityI)
    show "length p = length (p0[i := map (\<lambda>v. if 0 < v then v else 0) (orig ! i)])"
      using fin assms by simp
  next
    fix r assume "r < length p"
    then have r: "r < n" using fin by simp
    show "p ! r = p0[i := map (\<lambda>v. if 0 < v then v else 0) (orig ! i)] ! r"
    proof (cases "r = i")
      case False
      then show ?thesis using fin by simp
    next
      case True
      have li: "length (orig ! i) = n" using assms by (simp add: square_def)
      have "p ! i = map (\<lambda>v. if 0 < v then v else 0) (orig ! i)"
        by (rule nth_equalityI) (use fin li in auto)
      then show ?thesis using True assms by simp
    qed
  qed
  then show ?thesis using run fin row by simp
qed

lemma scanClues_eq:
  assumes "square n orig"
  shows "scanClues orig
         = Done (countDown (fullCounts n) (concat orig), blankSpots n orig, cleaned orig)"
proof -
  let ?clean = "map (\<lambda>v::int. if 0 < v then v else 0)"
  let ?body = "\<lambda>i (remainingNumbers, emptySpots, initializedPuzzle).
      for_each [0..<n] (scanCell orig i)
        (remainingNumbers, emptySpots, initializedPuzzle[i := replicate n 0])"
  let ?P = "\<lambda>pre (m, es, p).
      m = countDown (fullCounts n) (concat (map (\<lambda>i. orig ! i) pre))
    \<and> es = concat (map (\<lambda>i. map (Pair i) (filter (\<lambda>j. \<not> 0 < orig ! i ! j) [0..<n])) pre)
    \<and> length p = n \<and> (\<forall>r < n. p ! r = (if r \<in> set pre then ?clean (orig ! r) else []))"
  have len: "length orig = n" using assms by (simp add: square_def)
  have "\<exists>s'. for_each [0..<n] ?body (fullCounts n, [], replicate n []) = Done s' \<and> ?P [0..<n] s'"
  proof (rule for_each_prefix[where P = ?P])
    show "?P [] (fullCounts n, [], replicate n [])" by (simp add: countDown_Nil)
  next
    fix pre x s assume "x \<in> set [0..<n]" and P: "?P pre s"
    then have x: "x < n" by simp
    obtain m es p where s: "s = (m, es, p)" by (cases s)
    from P s have inv: "m = countDown (fullCounts n) (concat (map (\<lambda>i. orig ! i) pre))"
      "es = concat (map (\<lambda>i. map (Pair i) (filter (\<lambda>j. \<not> 0 < orig ! i ! j) [0..<n])) pre)"
      "length p = n" "\<forall>r < n. p ! r = (if r \<in> set pre then ?clean (orig ! r) else [])"
      by simp_all
    show "\<exists>s'. ?body x s = Done s' \<and> ?P (pre @ [x]) s'"
      using inv x
      by (simp add: s scanCell_loop[OF assms x inv(3)] countDown_append nth_list_update)
  qed
  then obtain m es p where run: "for_each [0..<n] ?body (fullCounts n, [], replicate n []) = Done (m, es, p)"
    and fin: "?P [0..<n] (m, es, p)" by auto
  have rows: "concat (map (\<lambda>i. orig ! i) [0..<n]) = concat orig"
    using map_nth[of orig] len by simp
  have "p = cleaned orig"
    by (rule nth_equalityI) (use fin len in \<open>auto simp: cleaned_def\<close>)
  then show ?thesis
    using run fin rows by (simp add: scanClues_def Let_def len blankSpots_def)
qed

lemma remove_spot:
  assumes "distinct es" "k < length es"
  shows "distinct (take (length es - 1) (es[k := es ! (length es - 1)]))
       \<and> set (take (length es - 1) (es[k := es ! (length es - 1)])) = set es - {es ! k}
       \<and> length (take (length es - 1) (es[k := es ! (length es - 1)])) = length es - 1"
proof -
  from assms(2) obtain xs l where es: "es = xs @ [l]" by (cases es rule: rev_cases) auto
  have d: "distinct xs" "l \<notin> set xs" using assms(1) es by simp_all
  show ?thesis
  proof (cases "k < length xs")
    case True
    have "take (length es - 1) (es[k := es ! (length es - 1)]) = xs[k := l]"
      using True by (simp add: es list_update_append)
    moreover have "distinct (xs[k := l])" using d by (intro distinct_list_update) auto
    moreover have "set (xs[k := l]) = insert l (set xs - {xs ! k})"
      using d(1) True by (rule set_update_distinct)
    moreover have "es ! k = xs ! k" using True by (simp add: es nth_append)
    moreover have "xs ! k \<noteq> l" using True d(2) by (metis nth_mem)
    ultimately show ?thesis using es by auto
  next
    case False
    with assms(2) have k: "k = length xs" by (simp add: es)
    have "take (length es - 1) (es[k := es ! (length es - 1)]) = xs" by (simp add: es k)
    moreover have "es ! k = l" by (simp add: es k)
    ultimately show ?thesis using d es by auto
  qed
qed

lemma placeNumber_step:
  assumes "square n p" "distinct es" "\<forall>(i, j) \<in> set es. i < n \<and> j < n \<and> p ! i ! j = 0" "es \<noteq> []"
  shows "\<exists>es1 p1. placeNumber d (es, p, r # rs) = Done (es1, p1, rs)
           \<and> square n p1 \<and> distinct es1 \<and> set es1 \<subseteq> set es \<and> length es1 = length es - 1
           \<and> (\<forall>(i, j) \<in> set es1. i < n \<and> j < n \<and> p1 ! i ! j = 0)
           \<and> (\<forall>i < n. \<forall>j < n. (i, j) \<notin> set es \<longrightarrow> p1 ! i ! j = p ! i ! j)
           \<and> mset (concat p1) + {#0#} = mset (concat p) + {#d#}"
proof -
  let ?k = "r mod length es"
  have k: "?k < length es" using assms(4) by simp
  obtain i j where spot: "es ! ?k = (i, j)" by (cases "es ! ?k")
  have mem: "(i, j) \<in> set es" using k spot by (metis nth_mem)
  with assms(3) have ij: "i < n" "j < n" "p ! i ! j = 0" by auto
  let ?p1 = "p[i := (p ! i)[j := d]]"
  let ?es1 = "take (length es - 1) (es[?k := es ! (length es - 1)])"
  from remove_spot[OF assms(2) k] have es1: "distinct ?es1" "set ?es1 = set es - {(i, j)}"
    "length ?es1 = length es - 1" by (simp_all add: spot)
  have run: "placeNumber d (es, p, r # rs) = Done (?es1, ?p1, rs)"
    using assms(4) k
    by (simp add: placeNumber_def Intn_def load_def store_def spot store2_cell[OF assms(1) ij(1,2)])
  have sq1: "square n ?p1" by (rule square_update[OF assms(1) ij(1)])
  have zero: "\<forall>(a, b) \<in> set ?es1. a < n \<and> b < n \<and> ?p1 ! a ! b = 0"
  proof (intro ballI, clarify)
    fix a b assume "(a, b) \<in> set ?es1"
    then have ab: "(a, b) \<in> set es" "(a, b) \<noteq> (i, j)" using es1(2) by auto
    with assms(3) have ab': "a < n" "b < n" "p ! a ! b = 0" by auto
    from update_cell_nth[OF assms(1) ij(1,2) ab'(1,2), of d] ab(2) ab'
    show "a < n \<and> b < n \<and> ?p1 ! a ! b = 0" by auto
  qed
  have frame: "\<forall>a < n. \<forall>b < n. (a, b) \<notin> set es \<longrightarrow> ?p1 ! a ! b = p ! a ! b"
  proof (intro allI impI)
    fix a b assume ab: "a < n" "b < n" "(a, b) \<notin> set es"
    with mem have "(a, b) \<noteq> (i, j)" by auto
    with update_cell_nth[OF assms(1) ij(1,2) ab(1,2), of d] show "?p1 ! a ! b = p ! a ! b" by auto
  qed
  have rows: "\<forall>row \<in> set p. length row = n" "length p = n" using assms(1) by (simp_all add: square_def)
  let ?F = "concat p"
  have idx: "i * n + j < length ?F"
    using flat_index_bound[OF ij(1,2)] by (simp add: length_concat_rows[OF rows(1)] rows(2))
  have at0: "?F ! (i * n + j) = 0"
    using concat_nth_rows[OF rows(1), of i j] ij rows(2) by simp
  have "concat ?p1 = ?F[i * n + j := d]"
    using concat_update_rows[OF rows(1), of i j d] ij rows(2) by simp
  then have "mset (concat ?p1) = add_mset d (mset ?F - {#0#})"
    using mset_update[OF idx, of d] at0 by simp
  moreover have "0 \<in># mset ?F" using idx at0 by (metis nth_mem set_mset_mset)
  ultimately have ms: "mset (concat ?p1) + {#0#} = mset ?F + {#d#}" by simp
  show ?thesis using run sq1 es1 zero frame ms by (intro exI[of _ ?es1] exI[of _ ?p1]) auto
qed

lemma place_loop:
  assumes "square n p" "distinct es" "\<forall>(i, j) \<in> set es. i < n \<and> j < n \<and> p ! i ! j = 0"
    "length ds \<le> length es" "length ds \<le> length rs"
  shows "\<exists>es' p'. for_each ds placeNumber (es, p, rs) = Done (es', p', drop (length ds) rs)
           \<and> square n p' \<and> distinct es' \<and> set es' \<subseteq> set es \<and> length es' = length es - length ds
           \<and> (\<forall>(i, j) \<in> set es'. i < n \<and> j < n \<and> p' ! i ! j = 0)
           \<and> (\<forall>i < n. \<forall>j < n. (i, j) \<notin> set es \<longrightarrow> p' ! i ! j = p ! i ! j)
           \<and> mset (concat p') + replicate_mset (length ds) 0 = mset (concat p) + mset ds"
  using assms
proof (induction ds arbitrary: es p rs)
  case Nil
  then show ?case by simp
next
  case (Cons d ds)
  from Cons.prems(4) have ne: "es \<noteq> []" by auto
  from Cons.prems(5) obtain r rs1 where rs: "rs = r # rs1" by (cases rs) auto
  from placeNumber_step[OF Cons.prems(1,2,3) ne, of d r rs1]
  obtain es1 p1 where st: "placeNumber d (es, p, r # rs1) = Done (es1, p1, rs1)"
    "square n p1" "distinct es1" "set es1 \<subseteq> set es" "length es1 = length es - 1"
    "\<forall>(i, j) \<in> set es1. i < n \<and> j < n \<and> p1 ! i ! j = 0"
    "\<forall>i < n. \<forall>j < n. (i, j) \<notin> set es \<longrightarrow> p1 ! i ! j = p ! i ! j"
    "mset (concat p1) + {#0#} = mset (concat p) + {#d#}" by blast
  have l1: "length ds \<le> length es1" "length ds \<le> length rs1"
    using Cons.prems(4,5) st(5) rs by simp_all
  from Cons.IH[OF st(2,3,6) l1]
  obtain es' p' where ih: "for_each ds placeNumber (es1, p1, rs1) = Done (es', p', drop (length ds) rs1)"
    "square n p'" "distinct es'" "set es' \<subseteq> set es1" "length es' = length es1 - length ds"
    "\<forall>(i, j) \<in> set es'. i < n \<and> j < n \<and> p' ! i ! j = 0"
    "\<forall>i < n. \<forall>j < n. (i, j) \<notin> set es1 \<longrightarrow> p' ! i ! j = p1 ! i ! j"
    "mset (concat p') + replicate_mset (length ds) 0 = mset (concat p1) + mset ds" by blast
  have run: "for_each (d # ds) placeNumber (es, p, rs) = Done (es', p', drop (length (d # ds)) rs)"
    by (simp add: rs st(1) ih(1))
  have frame: "\<forall>i < n. \<forall>j < n. (i, j) \<notin> set es \<longrightarrow> p' ! i ! j = p ! i ! j"
  proof (intro allI impI)
    fix i j assume ij: "i < n" "j < n" "(i, j) \<notin> set es"
    then have "(i, j) \<notin> set es1" using st(4) by auto
    with ih(7) ij have "p' ! i ! j = p1 ! i ! j" by simp
    also have "\<dots> = p ! i ! j" using st(7) ij by simp
    finally show "p' ! i ! j = p ! i ! j" .
  qed
  have "mset (concat p') + replicate_mset (length ds) 0 + {#0#} = mset (concat p1) + {#0#} + mset ds"
    using ih(8) by simp
  then have ms: "mset (concat p') + replicate_mset (length (d # ds)) 0 = mset (concat p) + mset (d # ds)"
    using st(8) by simp
  have len: "length es' = length es - length (d # ds)" using ih(5) st(5) by simp
  have sub: "set es' \<subseteq> set es" using ih(4) st(4) by blast
  from run ih(2,3) sub len ih(6) frame ms show ?case
    by - (intro exI[of _ es'] exI[of _ p'] conjI; assumption)
qed


lemma bind_res_Done_right: "bind_res m Done = m"
  by (cases m) simp_all

lemma for_each_Nil_fun: "for_each [] body = Done"
  by (rule ext) simp

lemma for_each_single: "for_each [x] body = body x"
  by (rule ext) (simp add: for_each_Nil_fun bind_res_Done_right)

lemma for_each_map: "for_each (map g xs) body = for_each xs (\<lambda>x. body (g x))"
proof (rule ext)
  fix s show "for_each (map g xs) body s = for_each xs (\<lambda>x. body (g x)) s"
    by (induction xs arbitrary: s) (simp_all cong: bind_res_cong)
qed

lemma for_each_concat:
  "for_each (concat xss) body = for_each xss (\<lambda>xs. for_each xs body)"
proof (rule ext)
  fix s show "for_each (concat xss) body s = for_each xss (\<lambda>xs. for_each xs body) s"
  proof (induction xss arbitrary: s)
    case Nil show ?case by simp
  next
    case (Cons xs xss)
    show ?case by (cases "for_each xs body s") (simp_all add: for_each_append Cons.IH)
  qed
qed

lemma for_each_replicate:
  "for_each (replicate c k) body = for_each [0..<c] (\<lambda>i. body k)"
proof (rule ext)
  fix s show "for_each (replicate c k) body s = for_each [0..<c] (\<lambda>i. body k) s"
  proof (induction c arbitrary: s)
    case 0 show ?case by simp
  next
    case (Suc c)
    have "for_each (replicate (Suc c) k) body s = for_each (replicate c k @ [k]) body s"
      by (simp only: replicate_append_same[symmetric] replicate_Suc)
    also have "\<dots> = for_each [0..<Suc c] (\<lambda>i. body k) s"
      by (simp add: for_each_append Suc.IH for_each_single)
    finally show ?case .
  qed
qed

lemma placeAll_placements:
  "placeAll m keyOrder = for_each (placements m keyOrder) placeNumber"
  by (simp add: placeAll_def placements_def for_each_concat for_each_map for_each_replicate)

lemma lookup_countDown:
  assumes "0 < k"
  shows "lookup (countDown m vs) k = lookup m k - int (count_list vs k)"
proof (induction vs rule: rev_induct)
  case Nil show ?case by (simp add: countDown_Nil)
next
  case (snoc v vs)
  then show ?case using assms by (auto simp: countDown_snoc lookup_def)
qed

lemma dom_countDown: "dom (countDown m vs) = dom m \<union> {v \<in> set vs. 0 < v}"
proof (induction vs rule: rev_induct)
  case Nil show ?case by (simp add: countDown_Nil)
next
  case (snoc v vs)
  then show ?case by (auto simp: countDown_snoc)
qed

lemma fold_upd_apply:
  "fold (\<lambda>i m. m(int i \<mapsto> c)) xs m0 k = (if k \<in> int ` set xs then Some c else m0 k)"
  by (induction xs arbitrary: m0) auto

lemma int_image_upt: "int ` set [1..<Suc n] = {1..int n}"
proof -
  have "set [1..<Suc n] = {1..n}" by auto
  then show ?thesis by (simp add: image_int_atLeastAtMost)
qed

lemma lookup_fullCounts:
  "lookup (fullCounts n) k = (if 1 \<le> k \<and> k \<le> int n then int n else 0)"
  unfolding fullCounts_def lookup_def fold_upd_apply int_image_upt by simp

lemma dom_fullCounts: "dom (fullCounts n) = {1..int n}"
  unfolding fullCounts_def dom_def fold_upd_apply int_image_upt by auto

lemma count_list_concat:
  "count_list (concat xss) d = sum_list (map (\<lambda>xs. count_list xs d) xss)"
  by (induction xss) simp_all

lemma count_list_replicate: "count_list (replicate c k) d = (if k = d then c else 0)"
  by (induction c) auto

lemma count_placements:
  assumes "distinct ks"
  shows "count_list (placements m ks) d = (if d \<in> set ks then nat (lookup m d) else 0)"
  using assms
  by (induction ks) (auto simp: placements_def count_list_concat count_list_replicate)

lemma length_placements:
  assumes "distinct ks"
  shows "length (placements m ks) = (\<Sum>k \<in> set ks. nat (lookup m k))"
  using assms
  by (simp add: placements_def length_concat comp_def sum_list_distinct_conv_sum_set)

lemma filter_index_length:
  "length (filter (\<lambda>j. P (row ! j)) [0..<length row]) = length (filter P row)"
proof -
  have "filter P row = filter P (map (\<lambda>j. row ! j) [0..<length row])" by (simp add: map_nth)
  also have "\<dots> = map (\<lambda>j. row ! j) (filter (\<lambda>j. P (row ! j)) [0..<length row])"
    by (simp add: filter_map comp_def)
  finally show ?thesis by (metis length_map)
qed

lemma length_blankSpots:
  assumes "square n orig"
  shows "length (blankSpots n orig) = length (filter (\<lambda>v. \<not> 0 < v) (concat orig))"
proof -
  have len: "length orig = n" "\<And>i. i < n \<Longrightarrow> length (orig ! i) = n"
    using assms by (simp_all add: square_def)
  have "length (blankSpots n orig)
      = sum_list (map (\<lambda>i. length (filter (\<lambda>j. \<not> 0 < orig ! i ! j) [0..<n])) [0..<n])"
    by (simp add: blankSpots_def length_concat comp_def)
  also have "\<dots> = sum_list (map (\<lambda>i. length (filter (\<lambda>v. \<not> 0 < v) (orig ! i))) [0..<n])"
  proof (rule arg_cong[where f = sum_list], rule map_cong[OF refl])
    fix i assume "i \<in> set [0..<n]"
    then have "length (orig ! i) = n" using len(2) by simp
    with filter_index_length[of "\<lambda>v. \<not> 0 < v" "orig ! i"]
    show "length (filter (\<lambda>j. \<not> 0 < orig ! i ! j) [0..<n]) = length (filter (\<lambda>v. \<not> 0 < v) (orig ! i))"
      by simp
  qed
  also have "\<dots> = sum_list (map (\<lambda>row. length (filter (\<lambda>v. \<not> 0 < v) row)) (map (\<lambda>i. orig ! i) [0..<n]))"
    by (simp add: comp_def)
  also have "map (\<lambda>i. orig ! i) [0..<n] = orig" using map_nth[of orig] len(1) by simp
  finally show ?thesis by (simp add: filter_concat length_concat comp_def)
qed

lemma blankSpots_set:
  "set (blankSpots n orig) = {(i, j). i < n \<and> j < n \<and> \<not> 0 < orig ! i ! j}"
  by (auto simp: blankSpots_def)

lemma blankSpots_filter:
  "blankSpots n orig = filter (\<lambda>(i, j). \<not> 0 < orig ! i ! j) (List.product [0..<n] [0..<n])"
  by (simp add: blankSpots_def product_concat_map filter_concat filter_map comp_def)

lemma distinct_blankSpots: "distinct (blankSpots n orig)"
  by (simp add: blankSpots_filter distinct_product)

lemma sum_count_positive:
  assumes "\<forall>v \<in> set vs. 0 \<le> v \<and> v \<le> int n"
  shows "(\<Sum>d = 1..n. count_list vs (int d)) = length (filter (\<lambda>v. 0 < v) vs)"
  using assms
proof (induction vs)
  case Nil show ?case by simp
next
  case (Cons v vs)
  have v: "0 \<le> v" "v \<le> int n" using Cons.prems by simp_all
  have "(\<Sum>d = 1..n. if v = int d then 1 else 0) = (if 0 < v then 1 else (0::nat))"
  proof -
    have "(\<Sum>d = 1..n. if v = int d then 1 else 0) = (\<Sum>d = 1..n. if d = nat v then 1 else (0::nat))"
      by (rule sum.cong) (use v in auto)
    also have "\<dots> = (if nat v \<in> {1..n} then 1 else 0)" by (simp add: sum.delta)
    also have "\<dots> = (if 0 < v then 1 else 0)" using v by auto
    finally show ?thesis .
  qed
  moreover have "(\<Sum>d = 1..n. count_list (v # vs) (int d))
      = (\<Sum>d = 1..n. count_list vs (int d)) + (\<Sum>d = 1..n. if v = int d then 1 else 0)"
  proof -
    have "(\<Sum>d = 1..n. count_list (v # vs) (int d))
        = (\<Sum>d = 1..n. count_list vs (int d) + (if v = int d then 1 else 0))"
      by (intro sum.cong refl) simp
    also have "\<dots> = (\<Sum>d = 1..n. count_list vs (int d)) + (\<Sum>d = 1..n. if v = int d then 1 else 0)"
      by (rule sum.distrib)
    finally show ?thesis .
  qed
  moreover have "(\<Sum>d = 1..n. count_list vs (int d)) = length (filter (\<lambda>v. 0 < v) vs)"
    using Cons by simp
  ultimately show ?case by simp
qed

lemma count_list_cleaned:
  assumes "0 < d"
  shows "count_list (concat (cleaned orig)) d = count_list (concat orig) d"
proof -
  have "concat (cleaned orig) = map (\<lambda>v. if 0 < v then v else 0) (concat orig)"
    by (simp add: cleaned_def map_concat)
  moreover have "count_list (map (\<lambda>v. if 0 < v then v else 0) vs) d = count_list vs d" for vs :: "int list"
    using assms by (induction vs) auto
  ultimately show ?thesis by simp
qed

lemma square_cleaned: "square n orig \<Longrightarrow> square n (cleaned orig)"
  by (simp add: square_def cleaned_def)

lemma cleaned_nth:
  assumes "square n orig" "i < n" "j < n"
  shows "cleaned orig ! i ! j = (if 0 < orig ! i ! j then orig ! i ! j else 0)"
  using assms by (simp add: square_def cleaned_def)

lemma concat_set_inRange:
  assumes "inRange n orig"
  shows "\<forall>v \<in> set (concat orig). 0 \<le> v \<and> v \<le> int n"
  using assms by (auto simp: inRange_def)

lemma dom_remaining:
  assumes "inRange n orig"
  shows "dom (countDown (fullCounts n) (concat orig)) = {1..int n}"
  using concat_set_inRange[OF assms] by (auto simp: dom_countDown dom_fullCounts)

lemma length_placements_blanks:
  assumes "square n orig" "inRange n orig"
    and "\<forall>d \<in> {1..n}. count_list (concat orig) (int d) \<le> n"
    and "distinct ks" "set ks = {1..int n}"
  shows "length (placements (countDown (fullCounts n) (concat orig)) ks)
         = length (filter (\<lambda>v. \<not> 0 < v) (concat orig))"
proof -
  let ?vs = "concat orig"
  let ?m = "countDown (fullCounts n) ?vs"
  have lk: "nat (lookup ?m (int d)) = n - count_list ?vs (int d)" if "d \<in> {1..n}" for d
    using that by (simp add: lookup_countDown lookup_fullCounts)
  have "length (placements ?m ks) = (\<Sum>k \<in> {1..int n}. nat (lookup ?m k))"
    by (simp add: length_placements[OF assms(4)] assms(5))
  also have "\<dots> = (\<Sum>d = 1..n. nat (lookup ?m (int d)))"
  proof -
    have "{1..int n} = int ` {1..n}" by (simp add: image_int_atLeastAtMost)
    then show ?thesis by (simp add: sum.reindex)
  qed
  also have "\<dots> = (\<Sum>d = 1..n. n - count_list ?vs (int d))"
    by (rule sum.cong) (simp_all add: lk)
  finally have a: "length (placements ?m ks) = (\<Sum>d = 1..n. n - count_list ?vs (int d))" .
  have S: "(\<Sum>d = 1..n. count_list ?vs (int d)) = length (filter (\<lambda>v. 0 < v) ?vs)"
    by (rule sum_count_positive[OF concat_set_inRange[OF assms(2)]])
  have "(\<Sum>d = 1..n. n - count_list ?vs (int d)) + (\<Sum>d = 1..n. count_list ?vs (int d))
        = (\<Sum>d = 1..n. n - count_list ?vs (int d) + count_list ?vs (int d))"
    by (rule sum.distrib[symmetric])
  also have "\<dots> = (\<Sum>d = 1..n. n)"
    by (rule sum.cong) (use assms(3) in auto)
  also have "\<dots> = n * n" by simp
  finally have b: "(\<Sum>d = 1..n. n - count_list ?vs (int d)) + length (filter (\<lambda>v. 0 < v) ?vs) = n * n"
    by (simp only: S)
  have "length ?vs = n * n"
    using assms(1) length_concat_rows[of orig n] by (simp add: square_def)
  then have c: "length (filter (\<lambda>v. 0 < v) ?vs) + length (filter (\<lambda>v. \<not> 0 < v) ?vs) = n * n"
    using sum_length_filter_compl[of "\<lambda>v. 0 < v" ?vs] by simp
  from a b c show ?thesis by simp
qed

lemma randomInitialization_counts:
  assumes "square n orig" "inRange n orig"
    and "\<forall>d \<in> {1..n}. count_list (concat orig) (int d) \<le> n"
    and "distinct ks" "set ks = {1..int n}"
    and "length (blankSpots n orig) \<le> length rs"
  shows "\<exists>p. randomInitialization orig ks rs = Done (p, drop (length (blankSpots n orig)) rs)
           \<and> square n p
           \<and> (\<forall>i < n. \<forall>j < n. 0 < orig ! i ! j \<longrightarrow> p ! i ! j = orig ! i ! j)
           \<and> (\<forall>d \<in> {1..n}. count_list (concat p) (int d) = n)
           \<and> inRange n p"
proof -
  let ?m = "countDown (fullCounts n) (concat orig)"
  let ?es = "blankSpots n orig"
  let ?p0 = "cleaned orig"
  let ?ds = "placements ?m ks"
  have lds: "length ?ds = length ?es"
    by (simp only: length_placements_blanks[OF assms(1-5)] length_blankSpots[OF assms(1)])
  have zero: "\<forall>(i, j) \<in> set ?es. i < n \<and> j < n \<and> ?p0 ! i ! j = 0"
    by (auto simp: blankSpots_set cleaned_nth[OF assms(1)])
  have l1: "length ?ds \<le> length ?es" and l2: "length ?ds \<le> length rs"
    using lds assms(6) by simp_all
  from place_loop[OF square_cleaned[OF assms(1)] distinct_blankSpots zero l1 l2]
  obtain es' p' where pl: "for_each ?ds placeNumber (?es, ?p0, rs) = Done (es', p', drop (length ?ds) rs)"
    "square n p'"
    "\<forall>i < n. \<forall>j < n. (i, j) \<notin> set ?es \<longrightarrow> p' ! i ! j = ?p0 ! i ! j"
    "mset (concat p') + replicate_mset (length ?ds) 0 = mset (concat ?p0) + mset ?ds"
    by blast
  have run: "randomInitialization orig ks rs = Done (p', drop (length ?es) rs)"
    by (simp add: randomInitialization_def scanClues_eq[OF assms(1)] placeAll_placements pl(1) lds)
  have clues: "\<forall>i < n. \<forall>j < n. 0 < orig ! i ! j \<longrightarrow> p' ! i ! j = orig ! i ! j"
  proof (intro allI impI)
    fix i j assume ij: "i < n" "j < n" "0 < orig ! i ! j"
    then have "(i, j) \<notin> set ?es" by (simp add: blankSpots_set)
    with pl(3) ij have "p' ! i ! j = ?p0 ! i ! j" by simp
    then show "p' ! i ! j = orig ! i ! j" using ij by (simp add: cleaned_nth[OF assms(1)])
  qed
  have cnt: "\<forall>d \<in> {1..n}. count_list (concat p') (int d) = n"
  proof
    fix d assume d: "d \<in> {1..n}"
    then have pos: "0 < int d" and mem: "int d \<in> set ks" using assms(5) by simp_all
    have "count (mset (concat p') + replicate_mset (length ?ds) 0) (int d)
          = count (mset (concat ?p0) + mset ?ds) (int d)" by (simp only: pl(4))
    then have "count_list (concat p') (int d) = count_list (concat ?p0) (int d) + count_list ?ds (int d)"
      using pos by (simp add: count_mset)
    also have "\<dots> = count_list (concat orig) (int d) + nat (lookup ?m (int d))"
      using mem by (simp add: count_list_cleaned[OF pos] count_placements[OF assms(4)])
    also have "nat (lookup ?m (int d)) = n - count_list (concat orig) (int d)"
      using d pos by (simp add: lookup_countDown lookup_fullCounts)
    finally show "count_list (concat p') (int d) = n" using assms(3) d by simp
  qed
  have rng: "inRange n p'"
  proof -
    have "0 \<le> v \<and> v \<le> int n" if "v \<in> set (concat p')" for v
    proof -
      from that have "v \<in># mset (concat p') + replicate_mset (length ?ds) 0" by simp
      then have "v \<in># mset (concat ?p0) + mset ?ds" by (simp only: pl(4))
      then consider "v \<in> set (concat ?p0)" | "v \<in> set ?ds" by auto
      then show ?thesis
      proof cases
        case 1
        then have "v \<in> (\<lambda>v. if 0 < v then v else 0) ` set (concat orig)"
          by (auto simp: cleaned_def)
        then show ?thesis using concat_set_inRange[OF assms(2)] by auto
      next
        case 2
        then have "v \<in> set ks" by (auto simp: placements_def)
        then show ?thesis using assms(5) by simp
      qed
    qed
    then show ?thesis by (auto simp: inRange_def)
  qed
  from run pl(2) clues cnt rng show ?thesis by blast
qed

text \<open>
  Claim C4. On a square clue grid of side \<open>n\<close> with values from 0 to \<open>n\<close> in which no digit
  from 1 to \<open>n\<close> occurs more than \<open>n\<close> times, the scan of lines 333-350 returns, and then
  \<open>randomInitialization\<close> returns for every order in which the keys of
  \<^verbatim>\<open>remainingNumbers\<close> are visited and every random source that holds a value for each
  empty spot. The grid it returns is square of side \<open>n\<close>, has the clue value at every clue
  cell, and holds every digit from 1 to \<open>n\<close> exactly \<open>n\<close> times.
\<close>

theorem randomInitialization_feasible:
  assumes "square n originalPuzzle" "inRange n originalPuzzle"
    and "\<forall>d \<in> {1..n}. count_list (concat originalPuzzle) (int d) \<le> n"
  shows "\<exists>remainingNumbers emptySpots initializedPuzzle.
           scanClues originalPuzzle = Done (remainingNumbers, emptySpots, initializedPuzzle)
         \<and> (\<forall>keyOrder rs. rangeOrder remainingNumbers keyOrder \<longrightarrow> length emptySpots \<le> length rs \<longrightarrow>
               (\<exists>p rs'. randomInitialization originalPuzzle keyOrder rs = Done (p, rs')
                  \<and> square n p
                  \<and> (\<forall>i < n. \<forall>j < n. 0 < originalPuzzle ! i ! j
                        \<longrightarrow> p ! i ! j = originalPuzzle ! i ! j)
                  \<and> (\<forall>d \<in> {1..n}. count_list (concat p) (int d) = n)))"
proof -
  let ?m = "countDown (fullCounts n) (concat originalPuzzle)"
  let ?es = "blankSpots n originalPuzzle"
  have scan: "scanClues originalPuzzle = Done (?m, ?es, cleaned originalPuzzle)"
    by (rule scanClues_eq[OF assms(1)])
  have "\<exists>p rs'. randomInitialization originalPuzzle keyOrder rs = Done (p, rs')
          \<and> square n p
          \<and> (\<forall>i < n. \<forall>j < n. 0 < originalPuzzle ! i ! j \<longrightarrow> p ! i ! j = originalPuzzle ! i ! j)
          \<and> (\<forall>d \<in> {1..n}. count_list (concat p) (int d) = n)"
    if ro: "rangeOrder ?m keyOrder" and len: "length ?es \<le> length rs" for keyOrder rs
  proof -
    from ro have ks: "distinct keyOrder" "set keyOrder = {1..int n}"
      by (simp_all add: rangeOrder_def dom_remaining[OF assms(2)])
    from randomInitialization_counts[OF assms ks len] show ?thesis by blast
  qed
  with scan show ?thesis by blast
qed

theorem randomInitialization_feasible_witness:
  "square 4 exampleClues \<and> inRange 4 exampleClues
   \<and> randomInitialization exampleClues [3, 1, 4, 2] [5, 0, 7, 1]
       = Done ([[1, 1, 3, 4], [3, 4, 1, 2], [2, 1, 4, 3], [4, 3, 2, 2]], [])
   \<and> (\<exists>p rs'. randomInitialization exampleClues [3, 1, 4, 2] [5, 0, 7, 1] = Done (p, rs')
          \<and> square 4 p
          \<and> (\<forall>i < 4. \<forall>j < 4. 0 < exampleClues ! i ! j \<longrightarrow> p ! i ! j = exampleClues ! i ! j)
          \<and> (\<forall>d \<in> {1..4}. count_list (concat p) (int d) = 4))"
proof -
  have sq: "square 4 exampleClues" by (simp add: square_def exampleClues_def)
  have rg: "inRange 4 exampleClues" by (simp add: inRange_def exampleClues_def)
  have le: "\<forall>d \<in> {1..4}. count_list (concat exampleClues) (int d) \<le> 4"
  proof
    fix d :: nat assume "d \<in> {1..4}"
    then have "d = 1 \<or> d = 2 \<or> d = 3 \<or> d = 4" by auto
    then show "count_list (concat exampleClues) (int d) \<le> 4"
      by (auto simp: exampleClues_def)
  qed
  have run: "randomInitialization exampleClues [3, 1, 4, 2] [5, 0, 7, 1]
       = Done ([[1, 1, 3, 4], [3, 4, 1, 2], [2, 1, 4, 3], [4, 3, 2, 2]], [])"
    by code_simp
  from randomInitialization_feasible [OF sq rg le]
  obtain m es p0 where scan: "scanClues exampleClues = Done (m, es, p0)"
    and all: "\<And>keyOrder rs. rangeOrder m keyOrder \<Longrightarrow> length es \<le> length rs \<Longrightarrow>
               (\<exists>p rs'. randomInitialization exampleClues keyOrder rs = Done (p, rs')
                  \<and> square 4 p
                  \<and> (\<forall>i < 4. \<forall>j < 4. 0 < exampleClues ! i ! j \<longrightarrow> p ! i ! j = exampleClues ! i ! j)
                  \<and> (\<forall>d \<in> {1..4}. count_list (concat p) (int d) = 4))"
    by blast
  from scan scanClues_eq[OF sq] have m: "m = countDown (fullCounts 4) (concat exampleClues)"
    and es: "es = blankSpots 4 exampleClues" by simp_all
  have "set [3, 1, 4, 2] = {1..int 4}" by auto
  then have ro: "rangeOrder m [3, 1, 4, 2]"
    by (simp add: rangeOrder_def m dom_remaining[OF rg])
  have "length es = 4" unfolding es by code_simp
  then have len: "length es \<le> length [5, 0, 7, 1 :: nat]" by simp
  from all[OF ro len] sq rg run show ?thesis by simp
qed

section \<open>The whole run: no panic, and candidates stay candidates\<close>

lemma safe_Done [simp]: "safe t P (Done x) = P x"
  and safe_Panic [simp]: "safe t P (Panic e) = False"
  and safe_Starved [simp]: "safe t P Starved = True"
  and safe_Timeout [simp]: "safe t P Timeout = t"
  by (simp_all add: safe_def)

lemma safe_bind:
  assumes "safe t P m" "\<And>x. P x \<Longrightarrow> safe t Q (f x)"
  shows "safe t Q (bind_res m f)"
  using assms by (cases m) simp_all

lemma safe_mono:
  assumes "safe t P r" "\<And>x. P x \<Longrightarrow> Q x"
  shows "safe t Q r"
  using assms by (cases r) simp_all

lemma safe_weaken: "safe False P r \<Longrightarrow> safe t P r"
  by (cases r) simp_all

lemma safe_for_each:
  assumes "I s" "\<And>x s. x \<in> set xs \<Longrightarrow> I s \<Longrightarrow> safe t I (body x s)"
  shows "safe t I (for_each xs body s)"
  using assms
proof (induction xs arbitrary: s)
  case Nil then show ?case by simp
next
  case (Cons x xs)
  show ?case unfolding for_each.simps
  proof (rule safe_bind)
    show "safe t I (body x s)" using Cons.prems by simp
  next
    fix s' assume "I s'"
    then show "safe t I (for_each xs body s')" using Cons.IH Cons.prems(2) by simp
  qed
qed

lemma grown_refl [simp]: "grown h h"
  by (simp add: grown_def)

lemma grown_length:
  assumes "grown h h'"
  shows "length h \<le> length h'"
proof -
  have "length (take (length h) h') = length h" using assms by (simp add: grown_def)
  then show ?thesis by simp
qed

lemma grown_trans:
  assumes "grown h h1" "grown h1 h2"
  shows "grown h h2"
proof -
  have l: "length h \<le> length h1" by (rule grown_length[OF assms(1)])
  have "take (length h) h2 = take (length h) (take (length h1) h2)" using l by (simp add: min_def)
  also have "\<dots> = take (length h) h1" using assms(2) by (simp add: grown_def)
  also have "\<dots> = h" using assms(1) by (simp add: grown_def)
  finally show ?thesis by (simp add: grown_def)
qed

lemma grown_append [simp]: "grown h (h @ xs)"
  by (simp add: grown_def)

lemma grown_rows:
  assumes "grown h h'" "alive h g"
  shows "rows h' g = rows h g"
  using assms rows_old by (simp add: grown_def)

lemma grown_alive:
  assumes "grown h h'" "alive h g"
  shows "alive h' g"
  using assms grown_length[OF assms(1)] by (auto simp: alive_def)

lemma grown_candidate:
  assumes "grown h h'" "candidate n C M h g"
  shows "candidate n C M h' g"
proof -
  from assms(2) have a: "alive h g" by (simp add: candidate_def)
  show ?thesis
    using assms(2) grown_rows[OF assms(1) a] grown_alive[OF assms(1) a]
    by (simp add: candidate_def)
qed

lemma copyPuzzle_candidate:
  assumes "candidate n C M h g"
  shows "\<exists>g' h1. copyPuzzle g h = (g', h1) \<and> grown h h1 \<and> candidate n C M h1 g'
           \<and> rows h1 g' = rows h g"
proof -
  from assms have a: "alive h g" "square n (rows h g)" by (simp_all add: candidate_def)
  from copyPuzzle_fresh[OF a] obtain nb h1 where
    c: "copyPuzzle g h = (nb, h1)" "nb = [length h ..< length h + n]"
       "length h1 = length h + n" "take (length h) h1 = h" "rows h1 nb = rows h g" by blast
  have "alive h1 nb" using c(2,3) by (simp add: alive_def)
  then have "candidate n C M h1 nb" using assms c(5) by (simp add: candidate_def)
  then show ?thesis using c(1,4,5) by (simp add: grown_def)
qed

lemma getNeighbour_safe:
  assumes "alive h orig" "square n (rows h orig)" "0 < n" "candidate n (rows h orig) M h cur"
  shows "safe t (\<lambda>(nb, h', rs'). grown h h' \<and> candidate n (rows h orig) M h' nb)
           (getNeighbour cur k orig (h, rs))"
proof -
  from assms(4) have c: "alive h cur" "square n (rows h cur)" "mset (concat (rows h cur)) = M"
    "\<forall>i < n. \<forall>j < n. 0 < rows h orig ! i ! j \<longrightarrow> rows h cur ! i ! j = rows h orig ! i ! j"
    by (simp_all add: candidate_def)
  note G = getNeighbour_draws[OF assms(1) c(1) assms(2) c(2) assms(3), of k rs]
  show ?thesis
  proof (cases "2 * nat k \<le> blankDraws (rows h orig) rs")
    case False
    with G show ?thesis by simp
  next
    case True
    let ?nb = "[length h ..< length h + n]"
    from G True obtain h' rs' where run: "getNeighbour cur k orig (h, rs) = Done (?nb, h', rs')"
      and inv: "swapInv n h orig cur ?nb h'" by auto
    from inv have i: "take (length h) h' = h" "alive h' ?nb" "square n (rows h' ?nb)"
      "mset (concat (rows h' ?nb)) = mset (concat (rows h cur))"
      "\<forall>i < n. \<forall>j < n. 0 < rows h orig ! i ! j \<longrightarrow> rows h' ?nb ! i ! j = rows h cur ! i ! j"
      by (simp_all add: swapInv_def neighbourInv_def)
    have "candidate n (rows h orig) M h' ?nb"
      using i c(3,4) by (simp add: candidate_def)
    then show ?thesis using run i(1) by (simp add: grown_def)
  qed
qed

lemma inRange_mset:
  assumes "mset (concat p) = M" "\<forall>v \<in># M. 0 \<le> v \<and> v \<le> int n"
  shows "inRange n p"
proof -
  have "set (concat p) = set_mset M" using assms(1) by (metis set_mset_mset)
  then show ?thesis using assms(2) by (auto simp: inRange_def)
qed

lemma costFunction_candidate:
  assumes "0 < X" "0 < Y" "X * Y < 2 ^ 63" "n = nat (X * Y)"
    and "\<forall>v \<in># M. 0 \<le> v \<and> v \<le> int n" "candidate n C M h g"
  shows "costFunction (rows h g) X Y = Done (specCost (rows h g) X Y)"
proof -
  from assms(6) have sq: "square n (rows h g)" and m: "mset (concat (rows h g)) = M"
    by (simp_all add: candidate_def)
  have rg: "inRange n (rows h g)" by (rule inRange_mset[OF m assms(5)])
  show ?thesis using costFunction_specCost[OF assms(1-3)] sq rg assms(4) by simp
qed

lemma searchLoop_safe:
  assumes "0 < X" "0 < Y" "X * Y < 2 ^ 63" "n = nat (X * Y)"
    and "\<forall>v \<in># M. 0 \<le> v \<and> v \<le> int n"
    and "alive h orig" "rows h orig = C" "square n C" "candidate n C M h cur"
    and "c0 = specCost (rows h cur) X Y"
  shows "safe t (\<lambda>(g, c, h', rs'). grown h h' \<and> candidate n C M h' g \<and> c = specCost (rows h' g) X Y)
           (searchLoop fp orig X Y T sc k cur c0 (h, rs))"
  using assms(6,7,9,10)
proof (induction k arbitrary: cur c0 h rs)
  case 0
  then show ?case by simp
next
  case (Suc k)
  have n: "0 < n" using assms(1,2,4) by simp
  have sq: "square n (rows h orig)" using Suc.prems(2) assms(8) by simp
  have G: "safe t (\<lambda>(nb, h', rs'). grown h h' \<and> candidate n C M h' nb)
             (getNeighbour cur sc orig (h, rs))"
    using getNeighbour_safe[OF Suc.prems(1) sq n, of M cur t sc rs] Suc.prems(2,3) by simp
  show ?case unfolding searchLoop.simps
  proof (rule safe_bind[OF G])
    fix x :: "grid \<times> heap \<times> rng"
    obtain nb h1 rs1 where x: "x = (nb, h1, rs1)" by (cases x)
    assume "case x of (nb, h', rs') \<Rightarrow> grown h h' \<and> candidate n C M h' nb"
    then have g1: "grown h h1" and c1: "candidate n C M h1 nb" using x by simp_all
    have a1: "alive h1 orig" by (rule grown_alive[OF g1 Suc.prems(1)])
    have r1: "rows h1 orig = C" using grown_rows[OF g1 Suc.prems(1)] Suc.prems(2) by simp
    have cur1: "candidate n C M h1 cur" by (rule grown_candidate[OF g1 Suc.prems(3)])
    have cc: "alive h cur" using Suc.prems(3) by (simp add: candidate_def)
    have c01: "c0 = specCost (rows h1 cur) X Y" using Suc.prems(4) grown_rows[OF g1 cc] by simp
    note cf = costFunction_candidate[OF assms(1-5) c1]
    have step: "safe t (\<lambda>(g, c, h', rs'). grown h h' \<and> candidate n C M h' g \<and> c = specCost (rows h' g) X Y)
                  (searchLoop fp orig X Y T sc k g c (h1, rs2))"
      if "candidate n C M h1 g" "c = specCost (rows h1 g) X Y" for g c rs2
    proof (rule safe_mono[OF Suc.IH[OF a1 r1 that, of rs2]])
      fix y :: "grid \<times> int \<times> heap \<times> rng"
      assume "case y of (g, c, h', rs') \<Rightarrow> grown h1 h' \<and> candidate n C M h' g \<and> c = specCost (rows h' g) X Y"
      then show "case y of (g, c, h', rs') \<Rightarrow> grown h h' \<and> candidate n C M h' g \<and> c = specCost (rows h' g) X Y"
        using grown_trans[OF g1] by (cases y) auto
    qed
    have fl: "safe t (\<lambda>(g, c, h', rs'). grown h h' \<and> candidate n C M h' g \<and> c = specCost (rows h' g) X Y)
                (bind_res (Float64 rs1) (\<lambda>(u, rs).
                   if a > u then searchLoop fp orig X Y T sc k nb (specCost (rows h1 nb) X Y) (h1, rs)
                   else searchLoop fp orig X Y T sc k cur c0 (h1, rs)))" for a
    proof (cases rs1)
      case Nil
      then show ?thesis by (simp add: Float64_def)
    next
      case (Cons r rs2)
      then show ?thesis using step[OF c1 refl] step[OF cur1 c01] by (simp add: Float64_def)
    qed
    show "safe t (\<lambda>(g, c, h', rs'). grown h h' \<and> candidate n C M h' g \<and> c = specCost (rows h' g) X Y)
            (case x of (newCandidateSolution, h, rs) \<Rightarrow>
               bind_res (costFunction (rows h newCandidateSolution) X Y) (\<lambda>newCandidateCost.
                 if newCandidateCost = 0 then Done (newCandidateSolution, 0, h, rs)
                 else if newCandidateCost < c0
                 then searchLoop fp orig X Y T sc k newCandidateSolution newCandidateCost (h, rs)
                 else let ap = acceptanceProbability fp c0 newCandidateCost T
                      in bind_res (Float64 rs) (\<lambda>(u, rs).
                           if ap > u
                           then searchLoop fp orig X Y T sc k newCandidateSolution newCandidateCost (h, rs)
                           else searchLoop fp orig X Y T sc k cur c0 (h, rs))))"
      using g1 c1 step[OF c1 refl] fl by (simp add: x cf Let_def)
  qed
qed

lemma annealerInternalIterator_safe:
  assumes "0 < X" "0 < Y" "X * Y < 2 ^ 63" "n = nat (X * Y)"
    and "\<forall>v \<in># M. 0 \<le> v \<and> v \<le> int n"
    and "alive h orig" "rows h orig = C" "square n C" "candidate n C M h g"
  shows "safe t (\<lambda>(g', c, h', rs'). grown h h' \<and> candidate n C M h' g' \<and> c = specCost (rows h' g') X Y)
           (annealerInternalIterator fp orig g X Y T it sc (h, rs))"
proof -
  from copyPuzzle_candidate[OF assms(9)] obtain g1 h1 where
    c: "copyPuzzle g h = (g1, h1)" "grown h h1" "candidate n C M h1 g1" by blast
  have a1: "alive h1 orig" by (rule grown_alive[OF c(2) assms(6)])
  have r1: "rows h1 orig = C" using grown_rows[OF c(2) assms(6)] assms(7) by simp
  note cf = costFunction_candidate[OF assms(1-5) c(3)]
  have "safe t (\<lambda>(g', c, h', rs'). grown h h' \<and> candidate n C M h' g' \<and> c = specCost (rows h' g') X Y)
          (searchLoop fp orig X Y T sc (nat it) g1 (specCost (rows h1 g1) X Y) (h1, rs))"
  proof (rule safe_mono[OF searchLoop_safe[OF assms(1-5) a1 r1 assms(8) c(3) refl]])
    fix y :: "grid \<times> int \<times> heap \<times> rng"
    assume "case y of (g, c, h', rs') \<Rightarrow> grown h1 h' \<and> candidate n C M h' g \<and> c = specCost (rows h' g) X Y"
    then show "case y of (g, c, h', rs') \<Rightarrow> grown h h' \<and> candidate n C M h' g \<and> c = specCost (rows h' g) X Y"
      using grown_trans[OF c(2)] by (cases y) auto
  qed
  then show ?thesis by (simp add: annealerInternalIterator_def c(1) cf)
qed

lemma exchangePass_perm:
  assumes "length sols = nat R" "length costs = nat R"
  shows "\<exists>sols' costs'. exchangePass R (sols, costs) = Done (sols', costs')
           \<and> length sols' = nat R \<and> length costs' = nat R
           \<and> mset (zip sols' costs') = mset (zip sols costs)"
proof -
  let ?I = "\<lambda>(s, c). length s = nat R \<and> length c = nat R \<and> mset (zip s c) = mset (zip sols costs)"
  have "\<exists>s'. for_each (rev [1..<nat R]) exchangeStep (sols, costs) = Done s' \<and> ?I s'"
  proof (rule for_each_total[where I = ?I])
    show "?I (sols, costs)" using assms by simp
  next
    fix x s assume x: "x \<in> set (rev [1..<nat R])" and I: "?I s"
    obtain a b where s: "s = (a, b)" by (cases s)
    from exchangeStep_keeps[of x a b] x I s
    show "\<exists>s'. exchangeStep x s = Done s' \<and> ?I s'" by auto
  qed
  then show ?thesis by (auto simp: exchangePass_def)
qed

lemma replicas_grown:
  assumes "grown h h'" "replicas n C M X Y R h sols costs"
  shows "replicas n C M X Y R h' sols costs"
proof -
  have "candidate n C M h' g \<and> c = specCost (rows h' g) X Y"
    if "candidate n C M h g" "c = specCost (rows h g) X Y" for g c
  proof -
    from that(1) have "alive h g" by (simp add: candidate_def)
    then show ?thesis using grown_candidate[OF assms(1) that(1)] grown_rows[OF assms(1)] that(2)
      by simp
  qed
  then show ?thesis using assms(2) unfolding replicas_def by blast
qed

lemma replicas_update:
  assumes "replicas n C M X Y R h sols costs" "i < R"
    and "candidate n C M h g" "c = specCost (rows h g) X Y"
  shows "replicas n C M X Y R h (sols[i := g]) (costs[i := c])"
proof -
  have "zip (sols[i := g]) (costs[i := c]) = (zip sols costs)[i := (g, c)]"
    by (simp add: zip_update)
  then have "set (zip (sols[i := g]) (costs[i := c])) \<subseteq> insert (g, c) (set (zip sols costs))"
    by (simp add: set_update_subset_insert)
  then show ?thesis using assms unfolding replicas_def by auto
qed

lemma replicas_nth:
  assumes "replicas n C M X Y R h sols costs" "i < R"
  shows "candidate n C M h (sols ! i)" "costs ! i = specCost (rows h (sols ! i)) X Y"
proof -
  have "(sols ! i, costs ! i) \<in> set (zip sols costs)"
    using assms by (simp add: replicas_def set_zip) blast
  then show "candidate n C M h (sols ! i)" "costs ! i = specCost (rows h (sols ! i)) X Y"
    using assms(1) unfolding replicas_def by blast+
qed

lemma replicas_perm:
  assumes "replicas n C M X Y R h sols costs"
    and "length sols' = R" "length costs' = R" "mset (zip sols' costs') = mset (zip sols costs)"
  shows "replicas n C M X Y R h sols' costs'"
proof -
  have "set (zip sols' costs') = set (zip sols costs)" using assms(4) by (metis set_mset_mset)
  then show ?thesis using assms(1,2,3) unfolding replicas_def by simp
qed

lemma runReplica_safe:
  assumes "0 < X" "0 < Y" "X * Y < 2 ^ 63" "n = nat (X * Y)"
    and "\<forall>v \<in># M. 0 \<le> v \<and> v \<le> int n"
    and "alive h orig" "rows h orig = C" "square n C"
    and "replicas n C M X Y R h sols costs" "i < R"
  shows "safe t (\<lambda>(sols', costs', h', rs'). grown h h' \<and> replicas n C M X Y R h' sols' costs')
           (runReplica fp orig X Y T it sc i (sols, costs, h, rs))"
proof -
  have len: "length sols = R" "length costs = R" using assms(9) by (simp_all add: replicas_def)
  note ci = replicas_nth(1)[OF assms(9,10)]
  note A = annealerInternalIterator_safe[OF assms(1-8) ci, of t fp "fmul fp T (2 ^ i)" it sc rs]
  have ld: "load sols i = Done (sols ! i)" using len assms(10) by (simp add: load_def)
  show ?thesis unfolding runReplica_def
  proof (simp only: prod.case ld bind_res.simps, rule safe_bind[OF A])
    fix x :: "grid \<times> int \<times> heap \<times> rng"
    obtain g c h' rs' where x: "x = (g, c, h', rs')" by (cases x)
    assume "case x of (g', c, h', rs') \<Rightarrow> grown h h' \<and> candidate n C M h' g' \<and> c = specCost (rows h' g') X Y"
    then have g: "grown h h'" and cg: "candidate n C M h' g" and cc: "c = specCost (rows h' g) X Y"
      using x by simp_all
    have "replicas n C M X Y R h' (sols[i := g]) (costs[i := c])"
      by (rule replicas_update[OF replicas_grown[OF g assms(9)] assms(10) cg cc])
    then show "safe t (\<lambda>(sols', costs', h', rs'). grown h h' \<and> replicas n C M X Y R h' sols' costs')
            (case x of (solution, cost, h, rs) \<Rightarrow>
               bind_res (store sols i solution) (\<lambda>annealerSolutions.
               bind_res (store costs i cost) (\<lambda>annealerCosts.
                 Done (annealerSolutions, annealerCosts, h, rs))))"
      using g len assms(10) by (simp add: x store_def)
  qed
qed

lemma replicas_loop_safe:
  assumes "0 < X" "0 < Y" "X * Y < 2 ^ 63" "n = nat (X * Y)"
    and "\<forall>v \<in># M. 0 \<le> v \<and> v \<le> int n"
    and "alive h orig" "rows h orig = C" "square n C"
    and "replicas n C M X Y R h sols costs"
  shows "safe t (\<lambda>(sols', costs', h', rs'). grown h h' \<and> replicas n C M X Y R h' sols' costs')
           (for_each [0..<R] (runReplica fp orig X Y T it sc) (sols, costs, h, rs))"
proof (rule safe_for_each)
  show "case (sols, costs, h, rs) of
          (sols', costs', h', rs') \<Rightarrow> grown h h' \<and> replicas n C M X Y R h' sols' costs'"
    using assms(9) by simp
next
  fix i and s :: "grid list \<times> int list \<times> heap \<times> rng"
  obtain sols1 costs1 h1 rs1 where s: "s = (sols1, costs1, h1, rs1)" by (cases s)
  assume "i \<in> set [0..<R]"
    and "case s of (sols', costs', h', rs') \<Rightarrow> grown h h' \<and> replicas n C M X Y R h' sols' costs'"
  then have i: "i < R" and g: "grown h h1" and r: "replicas n C M X Y R h1 sols1 costs1"
    using s by simp_all
  have a1: "alive h1 orig" by (rule grown_alive[OF g assms(6)])
  have r1: "rows h1 orig = C" using grown_rows[OF g assms(6)] assms(7) by simp
  have "safe t (\<lambda>(sols', costs', h', rs'). grown h h' \<and> replicas n C M X Y R h' sols' costs')
          (runReplica fp orig X Y T it sc i (sols1, costs1, h1, rs1))"
  proof (rule safe_mono[OF runReplica_safe[OF assms(1-5) a1 r1 assms(8) r i]])
    fix y :: "grid list \<times> int list \<times> heap \<times> rng"
    assume "case y of (sols', costs', h', rs') \<Rightarrow> grown h1 h' \<and> replicas n C M X Y R h' sols' costs'"
    then show "case y of (sols', costs', h', rs') \<Rightarrow> grown h h' \<and> replicas n C M X Y R h' sols' costs'"
      using grown_trans[OF g] by (cases y) auto
  qed
  then show "safe t (\<lambda>(sols', costs', h', rs'). grown h h' \<and> replicas n C M X Y R h' sols' costs')
          (runReplica fp orig X Y T it sc i s)" by (simp add: s)
qed

declare annealLoop.simps [simp del]

lemma annealLoop_floor:
  assumes "\<not> T > finalTemperature"
  shows "annealLoop fp rounds orig X Y T rate it sc cnt sols costs (h, rs)
         = bind_res (load sols 0) (\<lambda>solvedPuzzle. Done (solvedPuzzle, False, h, rs))"
  using assms by (subst annealLoop.simps) simp

lemma annealLoop_0:
  assumes "T > finalTemperature"
  shows "annealLoop fp 0 orig X Y T rate it sc cnt sols costs (h, rs) = Timeout"
  using assms by (subst annealLoop.simps) simp

lemma annealLoop_Suc:
  assumes "T > finalTemperature"
  shows "annealLoop fp (Suc r) orig X Y T rate it sc cnt sols costs (h, rs)
         = bind_res (for_each [0..<nat cnt] (runReplica fp orig X Y T it sc) (sols, costs, h, rs))
             (\<lambda>(annealerSolutions, annealerCosts, h, rs).
           bind_res (exchangePass cnt (annealerSolutions, annealerCosts))
             (\<lambda>(annealerSolutions, annealerCosts).
           bind_res (load annealerCosts 0) (\<lambda>coldest.
             if coldest = 0
             then bind_res (load annealerSolutions 0)
                    (\<lambda>solvedPuzzle. Done (solvedPuzzle, True, h, rs))
             else annealLoop fp r orig X Y (fmul fp T rate) rate it sc cnt
                    annealerSolutions annealerCosts (h, rs))))"
  using assms by (subst annealLoop.simps) simp

lemma annealLoop_safe:
  assumes "0 < X" "0 < Y" "X * Y < 2 ^ 63" "n = nat (X * Y)"
    and "\<forall>v \<in># M. 0 \<le> v \<and> v \<le> int n"
    and "square n C" "R = nat cnt" "0 < R"
    and "t \<or> (0 \<le> q \<and> (\<forall>x. finalTemperature < x \<longrightarrow> fmul fp x rate \<le> q * x))"
    and "alive h orig" "rows h orig = C" "replicas n C M X Y R h sols costs"
    and "t \<or> T * q ^ rounds \<le> finalTemperature"
  shows "safe t (\<lambda>(g, found, h', rs'). grown h h' \<and> candidate n C M h' g
                    \<and> (found \<longrightarrow> specCost (rows h' g) X Y = 0))
           (annealLoop fp rounds orig X Y T rate it sc cnt sols costs (h, rs))"
  using assms(10-13)
proof (induction rounds arbitrary: T sols costs h rs)
  case 0
  show ?case
  proof (cases "T > finalTemperature")
    case True
    with "0.prems"(4) have t by simp
    then show ?thesis by (simp add: annealLoop_0[OF True])
  next
    case False
    have "load sols 0 = Done (sols ! 0)" using "0.prems"(3) assms(8) by (simp add: replicas_def load_def)
    then show ?thesis using replicas_nth(1)[OF "0.prems"(3) assms(8)]
      by (simp add: annealLoop_floor[OF False])
  qed
next
  case (Suc r)
  show ?case
  proof (cases "T > finalTemperature")
    case False
    have "load sols 0 = Done (sols ! 0)" using Suc.prems(3) assms(8) by (simp add: replicas_def load_def)
    then show ?thesis using replicas_nth(1)[OF Suc.prems(3) assms(8)]
      by (simp add: annealLoop_floor[OF False])
  next
    case True
    note L = replicas_loop_safe[OF assms(1-5) Suc.prems(1,2) assms(6) Suc.prems(3),
        of t fp T it sc rs, unfolded assms(7)]
    show ?thesis unfolding annealLoop_Suc[OF True]
    proof (rule safe_bind[OF L])
      fix x :: "grid list \<times> int list \<times> heap \<times> rng"
      obtain sols1 costs1 h1 rs1 where x: "x = (sols1, costs1, h1, rs1)" by (cases x)
      assume "case x of (sols', costs', h', rs') \<Rightarrow>
                grown h h' \<and> replicas n C M X Y (nat cnt) h' sols' costs'"
      then have g: "grown h h1" and rp: "replicas n C M X Y R h1 sols1 costs1"
        using x assms(7) by simp_all
      have len: "length sols1 = nat cnt" "length costs1 = nat cnt"
        using rp assms(7) by (simp_all add: replicas_def)
      from exchangePass_perm[OF len] obtain sols2 costs2 where
        e: "exchangePass cnt (sols1, costs1) = Done (sols2, costs2)"
           "length sols2 = nat cnt" "length costs2 = nat cnt"
           "mset (zip sols2 costs2) = mset (zip sols1 costs1)" by blast
      have rp2: "replicas n C M X Y R h1 sols2 costs2"
        using replicas_perm[OF rp _ _ e(4)] e(2,3) assms(7) by simp
      have ld: "load costs2 0 = Done (costs2 ! 0)" "load sols2 0 = Done (sols2 ! 0)"
        using e(2,3) assms(7,8) by (simp_all add: load_def)
      note z = replicas_nth[OF rp2 assms(8)]
      have a1: "alive h1 orig" by (rule grown_alive[OF g Suc.prems(1)])
      have r1: "rows h1 orig = C" using grown_rows[OF g Suc.prems(1)] Suc.prems(2) by simp
      have cool: "t \<or> fmul fp T rate * q ^ r \<le> finalTemperature"
      proof (cases t)
        case True then show ?thesis by simp
      next
        case False
        with assms(9) Suc.prems(4) have q: "0 \<le> q" "fmul fp T rate \<le> q * T"
          "T * q ^ Suc r \<le> finalTemperature" using True by simp_all
        have "fmul fp T rate * q ^ r \<le> (q * T) * q ^ r"
          using q(1,2) by (intro mult_right_mono) simp_all
        also have "\<dots> = T * q ^ Suc r" by simp
        finally show ?thesis using q(3) by simp
      qed
      have rec: "safe t (\<lambda>(g, found, h', rs'). grown h h' \<and> candidate n C M h' g
                    \<and> (found \<longrightarrow> specCost (rows h' g) X Y = 0))
           (annealLoop fp r orig X Y (fmul fp T rate) rate it sc cnt sols2 costs2 (h1, rs1))"
      proof (rule safe_mono[OF Suc.IH[OF a1 r1 rp2 cool]])
        fix y :: "grid \<times> bool \<times> heap \<times> rng"
        assume "case y of (g, found, h', rs') \<Rightarrow> grown h1 h' \<and> candidate n C M h' g
                  \<and> (found \<longrightarrow> specCost (rows h' g) X Y = 0)"
        then show "case y of (g, found, h', rs') \<Rightarrow> grown h h' \<and> candidate n C M h' g
                  \<and> (found \<longrightarrow> specCost (rows h' g) X Y = 0)"
          using grown_trans[OF g] by (cases y) auto
      qed
      show "safe t (\<lambda>(g, found, h', rs'). grown h h' \<and> candidate n C M h' g
                    \<and> (found \<longrightarrow> specCost (rows h' g) X Y = 0))
              (case x of (annealerSolutions, annealerCosts, h, rs) \<Rightarrow>
                 bind_res (exchangePass cnt (annealerSolutions, annealerCosts))
                   (\<lambda>(annealerSolutions, annealerCosts).
                 bind_res (load annealerCosts 0) (\<lambda>coldest.
                   if coldest = 0
                   then bind_res (load annealerSolutions 0)
                          (\<lambda>solvedPuzzle. Done (solvedPuzzle, True, h, rs))
                   else annealLoop fp r orig X Y (fmul fp T rate) rate it sc cnt
                          annealerSolutions annealerCosts (h, rs))))"
        using rec g z by (simp add: x e(1) ld)
    qed
  qed
qed

lemma place_loop_starved:
  assumes "square n p" "distinct es" "\<forall>(i, j) \<in> set es. i < n \<and> j < n \<and> p ! i ! j = 0"
    "length ds \<le> length es" "length rs < length ds"
  shows "for_each ds placeNumber (es, p, rs) = Starved"
proof -
  let ?k = "length rs"
  have l: "length (take ?k ds) \<le> length es" "length (take ?k ds) \<le> length rs"
    using assms(4,5) by simp_all
  from place_loop[OF assms(1,2,3) l]
  obtain es' p' where r: "for_each (take ?k ds) placeNumber (es, p, rs)
      = Done (es', p', drop (length (take ?k ds)) rs)" "length es' = length es - length (take ?k ds)"
    by blast
  have "es' \<noteq> []" using r(2) assms(4,5) by auto
  moreover have "drop (length (take ?k ds)) rs = []" using assms(5) by simp
  moreover obtain d ds' where "drop ?k ds = d # ds'" using assms(5) by (cases "drop ?k ds") auto
  ultimately have "for_each (take ?k ds @ drop ?k ds) placeNumber (es, p, rs) = Starved"
    by (simp add: for_each_append r(1) placeNumber_def Intn_def)
  then show ?thesis by simp
qed

lemma randomInitialization_short:
  assumes "square n orig" "inRange n orig"
    and "\<forall>d \<in> {1..n}. count_list (concat orig) (int d) \<le> n"
    and "distinct ks" "set ks = {1..int n}"
    and "length rs < length (blankSpots n orig)"
  shows "randomInitialization orig ks rs = Starved"
proof -
  let ?m = "countDown (fullCounts n) (concat orig)"
  let ?es = "blankSpots n orig"
  let ?p0 = "cleaned orig"
  let ?ds = "placements ?m ks"
  have lds: "length ?ds = length ?es"
    by (simp only: length_placements_blanks[OF assms(1-5)] length_blankSpots[OF assms(1)])
  have zero: "\<forall>(i, j) \<in> set ?es. i < n \<and> j < n \<and> ?p0 ! i ! j = 0"
    by (auto simp: blankSpots_set cleaned_nth[OF assms(1)])
  have l1: "length ?ds \<le> length ?es" and l2: "length rs < length ?ds"
    using lds assms(6) by simp_all
  from place_loop_starved[OF square_cleaned[OF assms(1)] distinct_blankSpots zero l1 l2]
  show ?thesis
    by (simp add: randomInitialization_def scanClues_eq[OF assms(1)] placeAll_placements)
qed

lemma allocGrid_candidate:
  assumes "square n p" "mset (concat p) = M"
    and "\<forall>i < n. \<forall>j < n. 0 < C ! i ! j \<longrightarrow> p ! i ! j = C ! i ! j"
  shows "\<exists>g h1. allocGrid p h = (g, h1) \<and> grown h h1 \<and> candidate n C M h1 g \<and> rows h1 g = p"
proof -
  let ?g = "[length h ..< length h + length p]"
  have r: "rows (h @ p) ?g = p"
    by (rule nth_equalityI) (simp_all add: rows_def nth_append)
  have "alive (h @ p) ?g" by (simp add: alive_def)
  then have "candidate n C M (h @ p) ?g" using assms r by (simp add: candidate_def)
  then show ?thesis using r by (simp add: allocGrid_def)
qed

lemma initialReplicas_total:
  assumes "0 < X" "0 < Y" "X * Y < 2 ^ 63" "n = nat (X * Y)"
    and "\<forall>v \<in># M. 0 \<le> v \<and> v \<le> int n"
    and "candidate n C M h init" "0 \<le> cnt"
  shows "\<exists>sols costs h'. initialReplicas init X Y cnt h = Done (sols, costs, h')
           \<and> grown h h' \<and> replicas n C M X Y (nat cnt) h' sols costs"
proof -
  let ?R = "nat cnt"
  let ?body = "\<lambda>i (annealerSolutions, annealerCosts, h).
                let (copiedPuzzle, h) = copyPuzzle init h
                in bind_res (store annealerSolutions i copiedPuzzle) (\<lambda>annealerSolutions.
                   bind_res (costFunction (rows h init) X Y) (\<lambda>cost.
                   bind_res (store annealerCosts i cost) (\<lambda>annealerCosts.
                     Done (annealerSolutions, annealerCosts, h))))"
  let ?P = "\<lambda>pre (sols, costs, h'). length sols = ?R \<and> length costs = ?R \<and> grown h h'
              \<and> (\<forall>j \<in> set pre. candidate n C M h' (sols ! j)
                                    \<and> costs ! j = specCost (rows h' (sols ! j)) X Y)"
  have "\<exists>s'. for_each [0..<?R] ?body (replicate ?R [], replicate ?R 0, h) = Done s' \<and> ?P [0..<?R] s'"
  proof (rule for_each_prefix[where P = ?P])
    show "?P [] (replicate ?R [], replicate ?R 0, h)" by simp
  next
    fix pre x and s :: "grid list \<times> int list \<times> heap"
    obtain sols costs hi where s: "s = (sols, costs, hi)" by (cases s)
    assume "x \<in> set [0..<?R]" and "?P pre s"
    then have x: "x < ?R" and len: "length sols = ?R" "length costs = ?R" and g: "grown h hi"
      and old: "\<forall>j \<in> set pre. candidate n C M hi (sols ! j)
                                    \<and> costs ! j = specCost (rows hi (sols ! j)) X Y"
      using s by simp_all
    have ci: "candidate n C M hi init" by (rule grown_candidate[OF g assms(6)])
    from copyPuzzle_candidate[OF ci] obtain g1 h1 where
      c: "copyPuzzle init hi = (g1, h1)" "grown hi h1" "candidate n C M h1 g1"
         "rows h1 g1 = rows hi init" by blast
    have ci1: "candidate n C M h1 init" by (rule grown_candidate[OF c(2) ci])
    have ai: "alive hi init" using ci by (simp add: candidate_def)
    have ri: "rows h1 init = rows hi init" by (rule grown_rows[OF c(2) ai])
    note cf = costFunction_candidate[OF assms(1-5) ci1]
    let ?c = "specCost (rows h1 init) X Y"
    have run: "?body x s = Done (sols[x := g1], costs[x := ?c], h1)"
      using x len by (simp add: s c(1) cf store_def)
    have new: "\<forall>j \<in> set (pre @ [x]). candidate n C M h1 (sols[x := g1] ! j)
                 \<and> costs[x := ?c] ! j = specCost (rows h1 (sols[x := g1] ! j)) X Y"
    proof
      fix j assume j: "j \<in> set (pre @ [x])"
      show "candidate n C M h1 (sols[x := g1] ! j)
                 \<and> costs[x := ?c] ! j = specCost (rows h1 (sols[x := g1] ! j)) X Y"
      proof (cases "j = x")
        case True
        then show ?thesis using x len c(3,4) ri by simp
      next
        case False
        with j have jp: "j \<in> set pre" by simp
        with old have o: "candidate n C M hi (sols ! j)"
          "costs ! j = specCost (rows hi (sols ! j)) X Y" by simp_all
        from o(1) have "alive hi (sols ! j)" by (simp add: candidate_def)
        then have "rows h1 (sols ! j) = rows hi (sols ! j)" by (rule grown_rows[OF c(2)])
        then show ?thesis using False o grown_candidate[OF c(2) o(1)] by simp
      qed
    qed
    have "?P (pre @ [x]) (sols[x := g1], costs[x := ?c], h1)"
      using len grown_trans[OF g c(2)] new by simp
    with run show "\<exists>s'. ?body x s = Done s' \<and> ?P (pre @ [x]) s'" by blast
  qed
  then obtain sols costs h' where
    r: "for_each [0..<?R] ?body (replicate ?R [], replicate ?R 0, h) = Done (sols, costs, h')"
    and P: "length sols = ?R" "length costs = ?R" "grown h h'"
       "\<forall>j \<in> set [0..<?R]. candidate n C M h' (sols ! j)
                                    \<and> costs ! j = specCost (rows h' (sols ! j)) X Y"
    by auto
  have "replicas n C M X Y ?R h' sols costs"
    unfolding replicas_def using P by (auto simp: set_zip)
  moreover have "initialReplicas init X Y cnt h = Done (sols, costs, h')"
    using assms(7) r by (simp add: initialReplicas_def)
  ultimately show ?thesis using P(3) by blast
qed

lemma anneal_safe:
  assumes "0 < X" "0 < Y" "X * Y < 2 ^ 63" "n = nat (X * Y)"
    and "alive h orig" "square n (rows h orig)" "inRange n (rows h orig)"
    and "\<forall>d \<in> {1..n}. count_list (concat (rows h orig)) (int d) \<le> n"
    and "distinct ks" "set ks = {1..int n}" "0 < cnt"
    and "t \<or> (0 \<le> q \<and> (\<forall>x. finalTemperature < x \<longrightarrow> fmul fp x rate \<le> q * x))"
    and "t \<or> T * q ^ rounds \<le> finalTemperature"
  shows "safe t (\<lambda>(g, found, h', rs'). grown h h' \<and> alive h' g \<and> square n (rows h' g)
            \<and> (\<forall>d \<in> {1..n}. count_list (concat (rows h' g)) (int d) = n)
            \<and> (\<forall>i < n. \<forall>j < n. 0 < rows h orig ! i ! j
                  \<longrightarrow> rows h' g ! i ! j = rows h orig ! i ! j)
            \<and> (found \<longrightarrow> solved (rows h' g) X Y))
         (anneal fp rounds ks orig X Y T rate it sc cnt (h, rs))"
proof (cases "length rs < length (blankSpots n (rows h orig))")
  case True
  from randomInitialization_short[OF assms(6,7,8,9,10) True]
  show ?thesis by (simp add: anneal_def)
next
  case False
  let ?C = "rows h orig"
  from False have len: "length (blankSpots n ?C) \<le> length rs" by simp
  from randomInitialization_counts[OF assms(6,7,8,9,10) len]
  obtain p where p: "randomInitialization ?C ks rs = Done (p, drop (length (blankSpots n ?C)) rs)"
    "square n p" "\<forall>i < n. \<forall>j < n. 0 < ?C ! i ! j \<longrightarrow> p ! i ! j = ?C ! i ! j"
    "\<forall>d \<in> {1..n}. count_list (concat p) (int d) = n" "inRange n p" by blast
  let ?M = "mset (concat p)"
  let ?rs1 = "drop (length (blankSpots n ?C)) rs"
  have range: "\<forall>v \<in># ?M. 0 \<le> v \<and> v \<le> int n" using p(5) by (auto simp: inRange_def)
  from allocGrid_candidate[OF p(2) refl p(3), of h] obtain init h1 where
    a: "allocGrid p h = (init, h1)" "grown h h1" "candidate n ?C ?M h1 init" by blast
  have cnt: "0 \<le> cnt" using assms(11) by simp
  from initialReplicas_total[OF assms(1-4) range a(3) cnt] obtain sols costs h2 where
    i: "initialReplicas init X Y cnt h1 = Done (sols, costs, h2)" "grown h1 h2"
       "replicas n ?C ?M X Y (nat cnt) h2 sols costs" by blast
  have g2: "grown h h2" by (rule grown_trans[OF a(2) i(2)])
  have a2: "alive h2 orig" by (rule grown_alive[OF g2 assms(5)])
  have r2: "rows h2 orig = ?C" by (rule grown_rows[OF g2 assms(5)])
  have R: "0 < nat cnt" using assms(11) by simp
  note L = annealLoop_safe[OF assms(1-4) range assms(6) refl R assms(12) a2 r2 i(3) assms(13)]
  have "safe t (\<lambda>(g, found, h', rs'). grown h h' \<and> alive h' g \<and> square n (rows h' g)
            \<and> (\<forall>d \<in> {1..n}. count_list (concat (rows h' g)) (int d) = n)
            \<and> (\<forall>i < n. \<forall>j < n. 0 < ?C ! i ! j \<longrightarrow> rows h' g ! i ! j = ?C ! i ! j)
            \<and> (found \<longrightarrow> solved (rows h' g) X Y))
         (annealLoop fp rounds orig X Y T rate it sc cnt sols costs (h2, ?rs1))"
  proof (rule safe_mono[OF L])
    fix y :: "grid \<times> bool \<times> heap \<times> rng"
    obtain g found h' rs' where y: "y = (g, found, h', rs')" by (cases y)
    assume "case y of (g, found, h', rs') \<Rightarrow> grown h2 h' \<and> candidate n ?C ?M h' g
               \<and> (found \<longrightarrow> specCost (rows h' g) X Y = 0)"
    then have gr: "grown h2 h'" and c: "candidate n ?C ?M h' g"
      and f: "found \<longrightarrow> specCost (rows h' g) X Y = 0" using y by simp_all
    from c have cc: "alive h' g" "square n (rows h' g)" "mset (concat (rows h' g)) = ?M"
      "\<forall>i < n. \<forall>j < n. 0 < ?C ! i ! j \<longrightarrow> rows h' g ! i ! j = ?C ! i ! j"
      by (simp_all add: candidate_def)
    have "count_list (concat (rows h' g)) v = count_list (concat p) v" for v
      using cc(3) by (metis count_mset)
    then have counts: "\<forall>d \<in> {1..n}. count_list (concat (rows h' g)) (int d) = n"
      using p(4) by simp
    show "case y of (g, found, h', rs') \<Rightarrow> grown h h' \<and> alive h' g \<and> square n (rows h' g)
            \<and> (\<forall>d \<in> {1..n}. count_list (concat (rows h' g)) (int d) = n)
            \<and> (\<forall>i < n. \<forall>j < n. 0 < ?C ! i ! j \<longrightarrow> rows h' g ! i ! j = ?C ! i ! j)
            \<and> (found \<longrightarrow> solved (rows h' g) X Y)"
      using grown_trans[OF g2 gr] cc(1,2,4) counts f by (simp add: y specCost_zero_iff)
  qed
  then show ?thesis by (simp add: anneal_def p(1) a(1) i(1))
qed

section \<open>What stops a run before the loop, and what does not\<close>






section \<open>A fully specified grid\<close>

lemma blankDraws_full:
  assumes "square n C" "0 < n" "\<forall>row \<in> set C. \<forall>v \<in> set row. 0 < v"
  shows "blankDraws C rs = 0"
proof -
  have len: "length C = n" using assms(1) by (simp add: square_def)
  have pos: "0 < C ! (x mod n) ! (y mod n)" for x y :: nat
  proof -
    have x: "x mod n < n" and y: "y mod n < n" using assms(2) by simp_all
    then have "C ! (x mod n) \<in> set C" using len by simp
    moreover from this have "length (C ! (x mod n)) = n" using assms(1) by (simp add: square_def)
    then have "C ! (x mod n) ! (y mod n) \<in> set (C ! (x mod n))" using y by simp
    ultimately show ?thesis using assms(3) by blast
  qed
  have "\<forall>p \<in> set (pairs rs). \<not> (case p of (x, y) \<Rightarrow> C ! (x mod length C) ! (y mod length C) \<le> 0)"
  proof
    fix p :: "nat \<times> nat"
    obtain x y where p: "p = (x, y)" by (cases p)
    from pos[of x y] show "\<not> (case p of (x, y) \<Rightarrow> C ! (x mod length C) ! (y mod length C) \<le> 0)"
      by (simp add: p len)
  qed
  then have "filter (\<lambda>(x, y). C ! (x mod length C) ! (y mod length C) \<le> 0) (pairs rs) = []"
    by (simp add: filter_empty_conv)
  then show ?thesis by (simp add: blankDraws_def)
qed

lemma solved_counts:
  assumes "square n C" "n = nat (X * Y)" "solved C X Y" "d \<in> {1..n}"
  shows "count_list (concat C) (int d) = n"
proof -
  have row: "count_list (C ! r) (int d) = 1" if "r < n" for r
    using assms(2,3,4) that by (simp add: solved_def Let_def rowCells_def)
  have len: "length C = n" using assms(1) by (simp add: square_def)
  have "count_list (concat C) (int d) = sum_list (map (\<lambda>xs. count_list xs (int d)) C)"
    by (rule count_list_concat)
  also have "map (\<lambda>xs. count_list xs (int d)) C = map (\<lambda>r. count_list (C ! r) (int d)) [0..<n]"
    using len by (auto intro!: nth_equalityI)
  also have "\<dots> = map (\<lambda>r. 1) [0..<n]" by (rule map_cong[OF refl]) (simp add: row)
  also have "sum_list (map (\<lambda>r. 1 :: nat) [0..<n]) = n" by (simp add: sum_list_triv)
  finally show ?thesis .
qed

lemma searchLoop_starves:
  assumes "alive h orig" "square n (rows h orig)" "0 < n"
    and "\<forall>row \<in> set (rows h orig). \<forall>v \<in> set row. 0 < v"
    and "alive h cur" "square n (rows h cur)" "0 < sc"
  shows "searchLoop fp orig X Y T sc (Suc k) cur c0 (h, rs) = Starved"
proof -
  have "blankDraws (rows h orig) rs = 0" by (rule blankDraws_full[OF assms(2,3,4)])
  then have "\<not> 2 * nat sc \<le> blankDraws (rows h orig) rs" using assms(7) by simp
  with getNeighbour_draws[OF assms(1,5,2,6,3), of sc rs]
  have "getNeighbour cur sc orig (h, rs) = Starved" by simp
  then show ?thesis by simp
qed

text \<open>
  Claim C6 does not hold of the code. On a fully specified valid clue grid
  \<^verbatim>\<open>randomInitialization\<close> returns the grid and each replica starts from a copy of cost 0,
  but with at least one replica, one iteration and one swap the first call of
  \<^verbatim>\<open>getNeighbour\<close> draws coordinates until it finds a blank cell, and there is none: on
  every random source, however long, the run is still drawing. Nothing is returned and no
  convergence check is reached.
\<close>

theorem anneal_full_grid_starves:
  assumes "0 < blockXDim" "0 < blockYDim" "blockXDim * blockYDim < 2 ^ 63"
    and "n = nat (blockXDim * blockYDim)"
    and "alive h originalPuzzle" "square n (rows h originalPuzzle)"
    and "\<forall>row \<in> set (rows h originalPuzzle). \<forall>v \<in> set row. 0 < v \<and> v \<le> int n"
    and "solved (rows h originalPuzzle) blockXDim blockYDim"
    and "distinct keyOrder" "set keyOrder = {1..int n}"
    and "finalTemperature < baseTemperature"
    and "0 < internalIterations" "0 < swapCount" "0 < concurrentAnnealerCount"
  shows "anneal fp (Suc rounds) keyOrder originalPuzzle blockXDim blockYDim baseTemperature
           coolingRate internalIterations swapCount concurrentAnnealerCount (h, rs)
         = Starved"
proof -
  let ?C = "rows h originalPuzzle"
  have n: "0 < n" using assms(1,2,4) by simp
  have rg: "inRange n ?C" using assms(7) by (auto simp: inRange_def intro: less_imp_le)
  have pos: "\<forall>row \<in> set ?C. \<forall>v \<in> set row. 0 < v" using assms(7) by blast
  have cnt: "\<forall>d \<in> {1..n}. count_list (concat ?C) (int d) \<le> n"
    using solved_counts[OF assms(6,4,8)] by simp
  have "filter (\<lambda>v. \<not> 0 < v) (concat ?C) = []" using pos by (auto simp: filter_empty_conv)
  then have nob: "length (blankSpots n ?C) = 0" by (simp add: length_blankSpots[OF assms(6)])
  then have len: "length (blankSpots n ?C) \<le> length rs" by simp
  from randomInitialization_counts[OF assms(6) rg cnt assms(9,10) len]
  obtain p where p: "randomInitialization ?C keyOrder rs = Done (p, rs)"
    "square n p" "\<forall>i < n. \<forall>j < n. 0 < ?C ! i ! j \<longrightarrow> p ! i ! j = ?C ! i ! j"
    "inRange n p" using nob by auto
  let ?M = "mset (concat p)"
  have range: "\<forall>v \<in># ?M. 0 \<le> v \<and> v \<le> int n" using p(4) by (auto simp: inRange_def)
  from allocGrid_candidate[OF p(2) refl p(3), of h] obtain init h1 where
    a: "allocGrid p h = (init, h1)" "grown h h1" "candidate n ?C ?M h1 init" by blast
  have c0: "0 \<le> concurrentAnnealerCount" using assms(14) by simp
  from initialReplicas_total[OF assms(1-4) range a(3) c0] obtain sols costs h2 where
    i: "initialReplicas init blockXDim blockYDim concurrentAnnealerCount h1 = Done (sols, costs, h2)"
       "grown h1 h2" "replicas n ?C ?M blockXDim blockYDim (nat concurrentAnnealerCount) h2 sols costs"
    by blast
  have g2: "grown h h2" by (rule grown_trans[OF a(2) i(2)])
  have a2: "alive h2 originalPuzzle" by (rule grown_alive[OF g2 assms(5)])
  have r2: "rows h2 originalPuzzle = ?C" by (rule grown_rows[OF g2 assms(5)])
  have R: "0 < nat concurrentAnnealerCount" using assms(14) by simp
  note c = replicas_nth(1)[OF i(3) R]
  from copyPuzzle_candidate[OF c] obtain g3 h3 where
    cp: "copyPuzzle (sols ! 0) h2 = (g3, h3)" "grown h2 h3" "candidate n ?C ?M h3 g3" by blast
  have a3: "alive h3 originalPuzzle" by (rule grown_alive[OF cp(2) a2])
  have r3: "rows h3 originalPuzzle = ?C" using grown_rows[OF cp(2) a2] r2 by simp
  have c3: "alive h3 g3" "square n (rows h3 g3)" using cp(3) by (simp_all add: candidate_def)
  obtain k where k: "nat internalIterations = Suc k" using assms(12) by (cases "nat internalIterations") auto
  have sq3: "square n (rows h3 originalPuzzle)" using r3 assms(6) by simp
  have pos3: "\<forall>row \<in> set (rows h3 originalPuzzle). \<forall>v \<in> set row. 0 < v" using r3 pos by simp
  note st = searchLoop_starves[OF a3 sq3 n pos3 c3 assms(13)]
  have it: "annealerInternalIterator fp originalPuzzle (sols ! 0) blockXDim blockYDim T
              internalIterations swapCount (h2, rs) = Starved" for T
    by (simp add: annealerInternalIterator_def cp(1) costFunction_candidate[OF assms(1-4) range cp(3)]
        k st del: searchLoop.simps)
  have ld: "load sols 0 = Done (sols ! 0)" using i(3) R by (simp add: replicas_def load_def)
  have rr: "runReplica fp originalPuzzle blockXDim blockYDim baseTemperature internalIterations
              swapCount 0 (sols, costs, h2, rs) = Starved"
    by (simp add: runReplica_def ld it)
  have up: "[0..<nat concurrentAnnealerCount] = 0 # [1..<nat concurrentAnnealerCount]"
    using R by (simp add: upt_conv_Cons)
  have loop: "annealLoop fp (Suc rounds) originalPuzzle blockXDim blockYDim baseTemperature
                coolingRate internalIterations swapCount concurrentAnnealerCount sols costs (h2, rs)
              = Starved"
    using assms(11) by (subst annealLoop_Suc) (simp_all add: up rr)
  show ?thesis by (simp add: anneal_def p(1) a(1) i(1) loop)
qed

theorem anneal_full_grid_starves_witness:
  "alive exampleSolved [0, 1, 2, 3] \<and> square 4 (rows exampleSolved [0, 1, 2, 3])
   \<and> solved (rows exampleSolved [0, 1, 2, 3]) 2 2 \<and> finalTemperature < 1
   \<and> (\<forall>fp rounds rs. anneal fp (Suc rounds) [1, 2, 3, 4] [0, 1, 2, 3] 2 2 1 (1 / 2) 1 1 1
                        (exampleSolved, rs) = Starved)"
proof -
  have r: "rows exampleSolved [0, 1, 2, 3] = exampleSolved"
    by (simp add: rows_def exampleSolved_def)
  have d: "(0::int) < 2" "(2::int) * 2 < 2 ^ 63" "(4::nat) = nat (2 * 2)" by simp_all
  have a: "alive exampleSolved [0, 1, 2, 3]" by (simp add: alive_def exampleSolved_def)
  have sq: "square 4 (rows exampleSolved [0, 1, 2, 3])"
    by (simp only: r) (simp add: square_def exampleSolved_def)
  have full: "\<forall>row \<in> set (rows exampleSolved [0, 1, 2, 3]). \<forall>v \<in> set row. 0 < v \<and> v \<le> int 4"
    by (simp only: r) (simp add: exampleSolved_def)
  have "costFunction exampleSolved 2 2 = Done (specCost exampleSolved 2 2)"
    by (rule costFunction_specCost) (simp_all add: square_def inRange_def exampleSolved_def)
  moreover have "costFunction exampleSolved 2 2 = Done 0" by code_simp
  ultimately have "specCost exampleSolved 2 2 = 0" by simp
  then have sv: "solved (rows exampleSolved [0, 1, 2, 3]) 2 2" by (simp only: r specCost_zero_iff)
  have ks: "distinct [1, 2, 3, 4 :: int]" "set [1, 2, 3, 4] = {1..int 4}" by auto
  have hot: "finalTemperature < 1" by (simp add: finalTemperature_def)
  have p1: "(0::int) < 1" by simp
  from anneal_full_grid_starves [OF d(1) d(1) d(2) d(3) a sq full sv ks hot p1 p1 p1] a sq sv hot
  show ?thesis by simp
qed

end
